theory Spec2Isabelle
  imports Main "HOL-Library.Word" "HOL-Library.Multiset"
begin

section \<open>The stable-index vector of \<open>index_vector.hpp\<close>\<close>

text \<open>
  \<open>siv::vector<T>\<close> keeps three parallel tables: the dense element store \<open>m_data\<close>, the
  slot table \<open>m_metadata\<close> (one \<open>(rid, generation)\<close> pair per position) and the
  indirection table \<open>m_indexes\<close> (identifier to position).

  Identifiers and positions are \<open>uint64_t\<close>/\<open>size_t\<close> values that are only ever compared
  with, or copied from, a table length (which \<open>std::vector\<close> keeps below \<open>max_size()\<close>),
  so no arithmetic on them can wrap; they are natural numbers here. The generation
  counter is a \<open>uint64_t\<close> incremented with \<open>++\<close> without any guard, so it is a 64-bit
  word and \<open>+ 1\<close> wraps at \<open>2^64\<close>.
\<close>

type_synonym id_type = nat

record metadata =
  rid :: id_type
  generation :: "64 word"

record 'a vector =
  m_data :: "'a list"
  m_metadata :: "metadata list"
  m_indexes :: "id_type list"

text \<open>
  A handle is \<open>(m_id, m_generation, m_vector)\<close>. The development is about one container,
  so the back pointer \<open>m_vector\<close> is recorded as "points at the container" (\<open>True\<close>) or
  \<open>nullptr\<close> (\<open>False\<close>, the default-constructed handle).
\<close>

record handle =
  m_id :: id_type
  m_generation :: "64 word"
  m_vector :: bool

text \<open>Exceptions that leave the container alive: \<open>std::bad_alloc\<close> and \<open>std::out_of_range\<close>.\<close>

datatype error = bad_alloc | out_of_range

text \<open>
  The allocator is the environment of the container. An insertion reaches up to three
  growth steps, in this order: \<open>m_indexes.reserve\<close>, \<open>m_metadata.reserve\<close> (both only when a
  new identifier is minted) and the growth of \<open>m_data\<close> inside \<open>m_data.push_back\<close>. The
  argument of type \<open>alloc_fault\<close> says which of them, if reached, the allocator refuses.
\<close>

datatype alloc_fault = No_fault | Indexes_reserve_fails | Metadata_reserve_fails | Data_growth_fails

text \<open>
  Result of the insertion path: it returns an identifier and the new state, or throws
  and leaves the state it had reached, or has no defined behaviour (a write outside a
  table).
\<close>

datatype 'a insert_result = Returned id_type "'a vector" | Threw error "'a vector" | Undefined

definition new_vector :: "'a vector" where
  "new_vector = \<lparr>m_data = [], m_metadata = [], m_indexes = []\<rparr>"

text \<open>\<open>++m.generation\<close> on one slot, and \<open>std::swap\<close> of two cells of a table.\<close>

definition incr_generation :: "metadata \<Rightarrow> metadata" where
  "incr_generation m = m\<lparr>generation := generation m + 1\<rparr>"

definition std_swap :: "'b list \<Rightarrow> nat \<Rightarrow> nat \<Rightarrow> 'b list" where
  "std_swap xs i j = xs[i := xs ! j, j := xs ! i]"

subsection \<open>Queries\<close>

definition vector_size :: "'a vector \<Rightarrow> nat" where
  "vector_size v = length (m_data v)"

definition contains :: "'a vector \<Rightarrow> id_type \<Rightarrow> bool" where
  "contains v i \<longleftrightarrow> i < length (m_indexes v) \<and> m_indexes v ! i < length (m_data v)"

text \<open>\<open>at\<close>: \<open>check_at\<close> throws \<open>out_of_range\<close>, otherwise the element is read.\<close>

definition at :: "'a vector \<Rightarrow> id_type \<Rightarrow> error + 'a" where
  "at v i =
     (if length (m_indexes v) \<le> i \<or> length (m_data v) \<le> m_indexes v ! i then Inl out_of_range
      else Inr (m_data v ! (m_indexes v ! i)))"

text \<open>
  \<open>operator[]\<close> does no checking; a read outside \<open>m_indexes\<close> or \<open>m_data\<close> is undefined
  behaviour (\<open>None\<close>).
\<close>

definition subscript :: "'a vector \<Rightarrow> id_type \<Rightarrow> 'a option" where
  "subscript v i =
     (if i < length (m_indexes v) \<and> m_indexes v ! i < length (m_data v)
      then Some (m_data v ! (m_indexes v ! i)) else None)"

text \<open>\<open>index_of\<close> and \<open>generation(id)\<close> assert \<open>id < m_indexes.size()\<close>.\<close>

definition index_of :: "'a vector \<Rightarrow> id_type \<Rightarrow> nat option" where
  "index_of v i = (if i < length (m_indexes v) then Some (m_indexes v ! i) else None)"

definition vector_generation :: "'a vector \<Rightarrow> id_type \<Rightarrow> 64 word option" where
  "vector_generation v i =
     (if i < length (m_indexes v) \<and> m_indexes v ! i < length (m_metadata v)
      then Some (generation (m_metadata v ! (m_indexes v ! i))) else None)"

definition next_id :: "'a vector \<Rightarrow> id_type" where
  "next_id v =
     (if length (m_data v) < length (m_metadata v) then rid (m_metadata v ! length (m_data v))
      else length (m_data v))"

definition is_valid :: "'a vector \<Rightarrow> id_type \<Rightarrow> 64 word \<Rightarrow> bool" where
  "is_valid v i g =
     (if length (m_indexes v) \<le> i \<or> length (m_metadata v) \<le> m_indexes v ! i then False
      else g = generation (m_metadata v ! (m_indexes v ! i)))"

definition valid :: "handle \<Rightarrow> 'a vector \<Rightarrow> bool" where
  "valid h v \<longleftrightarrow> m_vector h \<and> is_valid v (m_id h) (m_generation h)"

definition make_handle :: "id_type \<Rightarrow> 'a vector \<Rightarrow> handle option" where
  "make_handle i v =
     (if i < length (m_indexes v) \<and> m_indexes v ! i < length (m_data v) then
        (if m_indexes v ! i < length (m_metadata v)
         then Some \<lparr>m_id = i, m_generation = generation (m_metadata v ! (m_indexes v ! i)),
                    m_vector = True\<rparr>
         else None)
      else None)"

definition make_handle_at :: "nat \<Rightarrow> 'a vector \<Rightarrow> handle option" where
  "make_handle_at idx v =
     (if idx < length (m_data v) then
        (if idx < length (m_metadata v)
         then Some \<lparr>m_id = rid (m_metadata v ! idx), m_generation = generation (m_metadata v ! idx),
                    m_vector = True\<rparr>
         else None)
      else None)"

subsection \<open>Modifiers\<close>

definition clear :: "'a vector \<Rightarrow> 'a vector" where
  "clear v = v\<lparr>m_data := [], m_metadata := map incr_generation (m_metadata v)\<rparr>"

text \<open>
  \<open>get_free_id\<close>: recycle the slot at position \<open>m_data.size()\<close> when the slot table is
  longer than the data, otherwise reserve both tables and append. A failed \<open>reserve\<close>
  throws before either table is changed.
\<close>

definition get_free_id :: "alloc_fault \<Rightarrow> 'a vector \<Rightarrow> error + (id_type \<times> 'a vector)" where
  "get_free_id af v =
     (if length (m_data v) < length (m_metadata v) then
        let p = length (m_data v);
            md = (m_metadata v)[p := incr_generation (m_metadata v ! p)]
        in Inr (rid (md ! p), v\<lparr>m_metadata := md\<rparr>)
      else
        let new_id = length (m_data v) in
        if af = Indexes_reserve_fails then Inl bad_alloc
        else if af = Metadata_reserve_fails then Inl bad_alloc
        else Inr (new_id,
               v\<lparr>m_metadata := m_metadata v @ [\<lparr>rid = new_id, generation = 0\<rparr>],
                 m_indexes := m_indexes v @ [new_id]\<rparr>))"

definition get_free_slot :: "alloc_fault \<Rightarrow> 'a vector \<Rightarrow> 'a insert_result" where
  "get_free_slot af v =
     (case get_free_id af v of
        Inl e \<Rightarrow> Threw e v
      | Inr (i, v') \<Rightarrow>
          if i < length (m_indexes v')
          then Returned i (v'\<lparr>m_indexes := (m_indexes v')[i := length (m_data v')]\<rparr>)
          else Undefined)"

definition push_back :: "alloc_fault \<Rightarrow> 'a \<Rightarrow> 'a vector \<Rightarrow> 'a insert_result" where
  "push_back af x v =
     (case get_free_slot af v of
        Returned i v' \<Rightarrow>
          if af = Data_growth_fails then Threw bad_alloc v'
          else Returned i (v'\<lparr>m_data := m_data v' @ [x]\<rparr>)
      | Threw e v' \<Rightarrow> Threw e v'
      | Undefined \<Rightarrow> Undefined)"

text \<open>
  \<open>erase(id)\<close>. \<open>None\<close> is a failed assertion or, with assertions compiled out, an access
  outside a table.
\<close>

definition erase :: "id_type \<Rightarrow> 'a vector \<Rightarrow> 'a vector option" where
  "erase i v =
     (if \<not> i < length (m_indexes v) then None
      else if \<not> m_indexes v ! i < length (m_data v) then None
      else
        let data_idx = m_indexes v ! i;
            last_data_idx = length (m_data v) - 1
        in if \<not> last_data_idx < length (m_metadata v) then None
        else
          let last_id = rid (m_metadata v ! last_data_idx);
              md = (m_metadata v)[data_idx := incr_generation (m_metadata v ! data_idx)]
          in if \<not> last_id < length (m_indexes v) then None
          else Some \<lparr>m_data = butlast (std_swap (m_data v) data_idx last_data_idx),
                      m_metadata = std_swap md data_idx last_data_idx,
                      m_indexes = std_swap (m_indexes v) i last_id\<rparr>)"

definition erase_at :: "nat \<Rightarrow> 'a vector \<Rightarrow> 'a vector option" where
  "erase_at idx v =
     (if \<not> idx < length (m_data v) then None
      else if \<not> idx < length (m_metadata v) then None
      else erase (rid (m_metadata v ! idx)) v)"

definition pop_back :: "'a vector \<Rightarrow> 'a vector option" where
  "pop_back v = (if m_data v = [] then None else erase_at (length (m_data v) - 1) v)"

text \<open>\<open>erase(const handle&)\<close>: both assertions, then \<open>erase(h.id())\<close>.\<close>

definition erase_handle :: "handle \<Rightarrow> 'a vector \<Rightarrow> 'a vector option" where
  "erase_handle h v = (if \<not> m_vector h then None else if \<not> valid h v then None else erase (m_id h) v)"

lemma erase_length_data:
  "erase i v = Some v' \<Longrightarrow> length (m_data v') = length (m_data v) - 1"
  by (auto simp: erase_def std_swap_def Let_def split: if_splits)

lemma erase_at_length_data:
  "erase_at idx v = Some v' \<Longrightarrow> length (m_data v') = length (m_data v) - 1"
  by (auto simp: erase_at_def erase_length_data split: if_splits)

text \<open>
  The loop of the member \<open>erase_if\<close>, from index \<open>i\<close>: after a removal the index is kept,
  otherwise it advances.
\<close>

function erase_if_from :: "('a \<Rightarrow> bool) \<Rightarrow> nat \<Rightarrow> 'a vector \<Rightarrow> 'a vector option" where
  "erase_if_from predicate i v =
     (if i < length (m_data v) then
        (if predicate (m_data v ! i) then
           (case erase_at i v of None \<Rightarrow> None | Some v' \<Rightarrow> erase_if_from predicate i v')
         else erase_if_from predicate (Suc i) v)
      else Some v)"
  by pat_completeness auto
termination
  by (relation "measure (\<lambda>(predicate, i, v). 2 * length (m_data v) - i)")
     (auto dest: erase_at_length_data)

definition erase_if :: "('a \<Rightarrow> bool) \<Rightarrow> 'a vector \<Rightarrow> 'a vector option" where
  "erase_if predicate v = erase_if_from predicate 0 v"

text \<open>The free function \<open>siv::erase_if\<close>: the number of elements removed, and the new state.\<close>

definition siv_erase_if :: "('a \<Rightarrow> bool) \<Rightarrow> 'a vector \<Rightarrow> (nat \<times> 'a vector) option" where
  "siv_erase_if predicate v =
     (let old_size = vector_size v in
      case erase_if predicate v of
        None \<Rightarrow> None
      | Some v' \<Rightarrow> Some (old_size - vector_size v', v'))"

subsection \<open>Sequences of public operations\<close>

datatype 'a operation =
    Push_back alloc_fault 'a
  | Erase id_type
  | Erase_at nat
  | Erase_if "'a \<Rightarrow> bool"
  | Pop_back
  | Clear

text \<open>
  One public call. A \<open>push_back\<close> that throws \<open>bad_alloc\<close> leaves the container in the state
  it had reached, and the caller goes on with it. \<open>None\<close>: the call broke its contract.
\<close>

fun exec :: "'a operation \<Rightarrow> 'a vector \<Rightarrow> 'a vector option" where
  "exec (Push_back af x) v =
     (case push_back af x v of Returned i v' \<Rightarrow> Some v' | Threw e v' \<Rightarrow> Some v' | Undefined \<Rightarrow> None)"
| "exec (Erase i) v = erase i v"
| "exec (Erase_at idx) v = erase_at idx v"
| "exec (Erase_if predicate) v = erase_if predicate v"
| "exec Pop_back v = pop_back v"
| "exec Clear v = Some (clear v)"

fun run :: "'a operation list \<Rightarrow> 'a vector \<Rightarrow> 'a vector option" where
  "run [] v = Some v"
| "run (opr # oprs) v = (case exec opr v of None \<Rightarrow> None | Some v' \<Rightarrow> run oprs v')"

text \<open>The states after each call of a sequence, in order.\<close>

fun states :: "'a operation list \<Rightarrow> 'a vector \<Rightarrow> 'a vector list option" where
  "states [] v = Some []"
| "states (opr # oprs) v =
     (case exec opr v of
        None \<Rightarrow> None
      | Some v' \<Rightarrow> (case states oprs v' of None \<Rightarrow> None | Some vs \<Rightarrow> Some (v' # vs)))"

subsection \<open>The structural invariant\<close>

text \<open>
  The two index tables have the same length, the data is no longer than they are, and
  following a slot's \<open>rid\<close> through \<open>m_indexes\<close> leads back to the slot, for live slots and
  holes alike.
\<close>

definition siv_inv :: "'a vector \<Rightarrow> bool" where
  "siv_inv v \<longleftrightarrow>
     length (m_indexes v) = length (m_metadata v) \<and>
     length (m_data v) \<le> length (m_metadata v) \<and>
     (\<forall>p \<in> {..<length (m_metadata v)}.
        rid (m_metadata v ! p) < length (m_indexes v) \<and> m_indexes v ! rid (m_metadata v ! p) = p)"

text \<open>An identifier is live when it is the \<open>rid\<close> of a slot that holds an element.\<close>

definition live :: "'a vector \<Rightarrow> id_type \<Rightarrow> bool" where
  "live v i \<longleftrightarrow> i \<in> rid ` set (take (length (m_data v)) (m_metadata v))"

subsection \<open>Auxiliary notions for the proofs\<close>

text \<open>A hole is a slot whose \<open>rid\<close> names no live element.\<close>

definition hole :: "'a vector \<Rightarrow> nat \<Rightarrow> bool" where
  "hole v p \<longleftrightarrow> p < length (m_metadata v) \<and> \<not> live v (rid (m_metadata v ! p))"

text \<open>
  What an insertion, completed or aborted by \<open>bad_alloc\<close>, does to the three tables: nothing,
  or the recycling of the slot at position \<open>m_data.size()\<close>, or the minting of a new slot;
  and the value is appended exactly when an identifier is returned.
\<close>

definition recycled :: "'a vector \<Rightarrow> 'a vector \<Rightarrow> bool" where
  "recycled v v' \<longleftrightarrow>
     length (m_data v) < length (m_metadata v) \<and>
     m_metadata v' = (m_metadata v)[length (m_data v) := incr_generation (m_metadata v ! length (m_data v))] \<and>
     m_indexes v' = m_indexes v"

definition minted :: "'a vector \<Rightarrow> 'a vector \<Rightarrow> bool" where
  "minted v v' \<longleftrightarrow>
     length (m_metadata v) = length (m_data v) \<and>
     length (m_indexes v) = length (m_data v) \<and>
     m_metadata v' = m_metadata v @ [\<lparr>rid = length (m_data v), generation = 0\<rparr>] \<and>
     m_indexes v' = m_indexes v @ [length (m_data v)]"

text \<open>
  The identifiers that the loop of \<open>erase_if\<close>, standing at index \<open>i\<close>, has still to remove:
  the live ones at position \<open>i\<close> or above whose element satisfies the predicate.
\<close>

definition doomed :: "('a \<Rightarrow> bool) \<Rightarrow> nat \<Rightarrow> 'a vector \<Rightarrow> id_type \<Rightarrow> bool" where
  "doomed P i v j \<longleftrightarrow> contains v j \<and> i \<le> m_indexes v ! j \<and> P (m_data v ! (m_indexes v ! j))"


text \<open>A container written out by its three tables, each slot as a pair \<open>(rid, generation)\<close>.\<close>

definition container :: "'a list \<Rightarrow> (id_type \<times> 64 word) list \<Rightarrow> id_type list \<Rightarrow> 'a vector" where
  "container d m ix =
     \<lparr>m_data = d, m_metadata = map (\<lambda>(r, g). \<lparr>rid = r, generation = g\<rparr>) m, m_indexes = ix\<rparr>"

text \<open>
  The recursion equation of the loop is unfolded by hand; the two collections below
  evaluate the operations and the queries on a container that is written out.
\<close>

declare erase_if_from.simps [simp del]

lemmas eval_defs = push_back_def get_free_slot_def get_free_id_def new_vector_def erase_def
  std_swap_def incr_generation_def Let_def erase_at_def pop_back_def clear_def

lemmas eval_queries = container_def contains_def subscript_def at_def index_of_def vector_size_def
  vector_generation_def next_id_def is_valid_def valid_def make_handle_def make_handle_at_def

section \<open>Basic facts\<close>

lemma inv_inverse_aux:
  fixes f g :: "nat \<Rightarrow> nat"
  assumes "\<forall>p<n. f p < n \<and> g (f p) = p" and "i < n"
  shows "g i < n \<and> f (g i) = i"
proof -
  have "inj_on f {..<n}" using assms(1) by (metis inj_on_inverseI lessThan_iff)
  moreover have "f ` {..<n} \<subseteq> {..<n}" using assms(1) by auto
  ultimately have "f ` {..<n} = {..<n}" by (simp add: endo_inj_surj)
  then obtain p where "p < n" "f p = i" using assms(2) by (metis imageE lessThan_iff)
  then show ?thesis using assms(1) by auto
qed

lemma siv_inv_lengths:
  "siv_inv v \<Longrightarrow> length (m_indexes v) = length (m_metadata v) \<and> length (m_data v) \<le> length (m_metadata v)"
  by (simp add: siv_inv_def)

lemma siv_inv_rid:
  "siv_inv v \<Longrightarrow> p < length (m_metadata v) \<Longrightarrow>
     rid (m_metadata v ! p) < length (m_indexes v) \<and> m_indexes v ! rid (m_metadata v ! p) = p"
  by (auto simp: siv_inv_def)

lemma siv_inv_index:
  assumes "siv_inv v" and "i < length (m_indexes v)"
  shows "m_indexes v ! i < length (m_metadata v) \<and> rid (m_metadata v ! (m_indexes v ! i)) = i"
proof -
  let ?n = "length (m_metadata v)"
  have "\<forall>p<?n. rid (m_metadata v ! p) < ?n \<and> m_indexes v ! rid (m_metadata v ! p) = p"
    using assms(1) by (auto simp: siv_inv_def)
  moreover have "i < ?n" using assms by (simp add: siv_inv_def)
  ultimately show ?thesis
    by (rule inv_inverse_aux [where f = "\<lambda>p. rid (m_metadata v ! p)" and g = "\<lambda>i. m_indexes v ! i"])
qed

lemma std_swap_last_data:
  assumes "d < length xs"
  shows "butlast (std_swap xs d (length xs - 1)) = butlast (xs[d := last xs])"
  using assms by (cases "xs = []") (simp_all add: std_swap_def butlast_list_update last_conv_nth)

lemma std_swap_incr:
  assumes "d < length M" and "l < length M"
  shows "std_swap (M[d := b]) d l = M[d := M ! l, l := b]"
  using assms by (cases "d = l") (simp_all add: std_swap_def)

lemma erase_eq:
  assumes "siv_inv v" and "contains v i"
  shows "erase i v = Some
     \<lparr>m_data = butlast ((m_data v)[m_indexes v ! i := last (m_data v)]),
      m_metadata = (m_metadata v)[m_indexes v ! i := m_metadata v ! (length (m_data v) - 1),
         length (m_data v) - 1 := incr_generation (m_metadata v ! (m_indexes v ! i))],
      m_indexes = (m_indexes v)[i := length (m_data v) - 1,
         rid (m_metadata v ! (length (m_data v) - 1)) := m_indexes v ! i]\<rparr>"
proof -
  let ?l = "length (m_data v) - 1"
  have i: "i < length (m_indexes v)" and d: "m_indexes v ! i < length (m_data v)"
    using assms(2) by (simp_all add: contains_def)
  have l: "?l < length (m_metadata v)" using assms(1) d by (auto simp: siv_inv_def)
  have t: "rid (m_metadata v ! ?l) < length (m_indexes v)" "m_indexes v ! rid (m_metadata v ! ?l) = ?l"
    using siv_inv_rid [OF assms(1) l] by simp_all
  have dm: "m_indexes v ! i < length (m_metadata v)" using assms(1) d by (simp add: siv_inv_def)
  have data: "butlast (std_swap (m_data v) (m_indexes v ! i) ?l) = butlast ((m_data v)[m_indexes v ! i := last (m_data v)])"
    by (rule std_swap_last_data [OF d])
  have md: "std_swap ((m_metadata v)[m_indexes v ! i := incr_generation (m_metadata v ! (m_indexes v ! i))]) (m_indexes v ! i) ?l
      = (m_metadata v)[m_indexes v ! i := m_metadata v ! ?l, ?l := incr_generation (m_metadata v ! (m_indexes v ! i))]"
    by (rule std_swap_incr [OF dm l])
  have ix: "std_swap (m_indexes v) i (rid (m_metadata v ! ?l)) = (m_indexes v)[i := ?l, rid (m_metadata v ! ?l) := m_indexes v ! i]"
    by (simp only: std_swap_def t)
  have "erase i v = Some
     \<lparr>m_data = butlast (std_swap (m_data v) (m_indexes v ! i) ?l),
      m_metadata = std_swap ((m_metadata v)[m_indexes v ! i := incr_generation (m_metadata v ! (m_indexes v ! i))]) (m_indexes v ! i) ?l,
      m_indexes = std_swap (m_indexes v) i (rid (m_metadata v ! ?l))\<rparr>"
    using i d l t(1) by (simp add: erase_def Let_def)
  then show ?thesis by (simp only: data md ix)
qed

lemma rid_incr_generation [simp]: "rid (incr_generation m) = rid m"
  by (simp add: incr_generation_def)

lemma generation_incr_generation [simp]: "generation (incr_generation m) = generation m + 1"
  by (simp add: incr_generation_def)

lemma erase_Some_contains: "erase i v = Some v' \<Longrightarrow> contains v i"
  by (simp add: erase_def contains_def split: if_splits)

lemma erase_fields:
  assumes "siv_inv v" and "erase i v = Some v'"
  shows "m_data v' = butlast ((m_data v)[m_indexes v ! i := last (m_data v)])"
    and "m_metadata v' = (m_metadata v)[m_indexes v ! i := m_metadata v ! (length (m_data v) - 1),
         length (m_data v) - 1 := incr_generation (m_metadata v ! (m_indexes v ! i))]"
    and "m_indexes v' = (m_indexes v)[i := length (m_data v) - 1,
         rid (m_metadata v ! (length (m_data v) - 1)) := m_indexes v ! i]"
  using erase_eq [OF assms(1) erase_Some_contains [OF assms(2)]] assms(2) by auto

text \<open>The facts about a live identifier and the tail that every proof about \<open>erase\<close> uses.\<close>

lemma erase_setting:
  assumes "siv_inv v" and "contains v i"
  shows "i < length (m_indexes v)"
    and "m_indexes v ! i < length (m_data v)"
    and "m_indexes v ! i < length (m_metadata v)"
    and "length (m_data v) - 1 < length (m_metadata v)"
    and "rid (m_metadata v ! (m_indexes v ! i)) = i"
    and "rid (m_metadata v ! (length (m_data v) - 1)) < length (m_indexes v)"
    and "m_indexes v ! rid (m_metadata v ! (length (m_data v) - 1)) = length (m_data v) - 1"
    and "length (m_indexes v) = length (m_metadata v)"
proof -
  show i: "i < length (m_indexes v)" and d: "m_indexes v ! i < length (m_data v)"
    using assms(2) by (simp_all add: contains_def)
  show n: "length (m_indexes v) = length (m_metadata v)" using assms(1) by (simp add: siv_inv_def)
  show "m_indexes v ! i < length (m_metadata v)" using siv_inv_lengths [OF assms(1)] d by linarith
  show l: "length (m_data v) - 1 < length (m_metadata v)" using siv_inv_lengths [OF assms(1)] d by linarith
  show "rid (m_metadata v ! (m_indexes v ! i)) = i" using siv_inv_index [OF assms(1) i] by simp
  show "rid (m_metadata v ! (length (m_data v) - 1)) < length (m_indexes v)"
    and "m_indexes v ! rid (m_metadata v ! (length (m_data v) - 1)) = length (m_data v) - 1"
    using siv_inv_rid [OF assms(1) l] by simp_all
qed

lemma erase_indexes_nth:
  assumes "siv_inv v" and "erase i v = Some v'" and "j < length (m_indexes v)"
  shows "m_indexes v' ! j =
     (if j = i then length (m_data v) - 1
      else if j = rid (m_metadata v ! (length (m_data v) - 1)) then m_indexes v ! i
      else m_indexes v ! j)"
proof -
  note s = erase_setting [OF assms(1) erase_Some_contains [OF assms(2)]]
  show ?thesis
    unfolding erase_fields(3) [OF assms(1,2)]
    using s assms(3) by (auto simp: nth_list_update)
qed

lemma erase_metadata_nth:
  assumes "siv_inv v" and "erase i v = Some v'" and "p < length (m_metadata v)"
  shows "m_metadata v' ! p =
     (if p = length (m_data v) - 1 then incr_generation (m_metadata v ! (m_indexes v ! i))
      else if p = m_indexes v ! i then m_metadata v ! (length (m_data v) - 1)
      else m_metadata v ! p)"
proof -
  note s = erase_setting [OF assms(1) erase_Some_contains [OF assms(2)]]
  show ?thesis
    unfolding erase_fields(2) [OF assms(1,2)]
    using s assms(3) by (auto simp: nth_list_update)
qed

lemma erase_lengths:
  assumes "siv_inv v" and "erase i v = Some v'"
  shows "length (m_metadata v') = length (m_metadata v)"
    and "length (m_indexes v') = length (m_indexes v)"
    and "length (m_data v') = length (m_data v) - 1"
  by (simp_all add: erase_fields [OF assms])

lemma siv_inv_erase:
  assumes "siv_inv v" and "erase i v = Some v'"
  shows "siv_inv v'"
proof -
  note s = erase_setting [OF assms(1) erase_Some_contains [OF assms(2)]]
  note len = erase_lengths [OF assms]
  have "rid (m_metadata v' ! p) < length (m_indexes v') \<and> m_indexes v' ! rid (m_metadata v' ! p) = p"
    if p: "p < length (m_metadata v)" for p
  proof -
    have r: "rid (m_metadata v ! p) < length (m_indexes v)" "m_indexes v ! rid (m_metadata v ! p) = p"
      using siv_inv_rid [OF assms(1) p] by simp_all
    note m = erase_metadata_nth [OF assms p]
    have ix: "m_indexes v' ! rid (m_metadata v' ! p) =
       (if rid (m_metadata v' ! p) = i then length (m_data v) - 1
        else if rid (m_metadata v' ! p) = rid (m_metadata v ! (length (m_data v) - 1)) then m_indexes v ! i
        else m_indexes v ! rid (m_metadata v' ! p))"
      if "rid (m_metadata v' ! p) < length (m_indexes v)"
      using erase_indexes_nth [OF assms that] .
    consider "p = length (m_data v) - 1" | "p \<noteq> length (m_data v) - 1" "p = m_indexes v ! i"
      | "p \<noteq> length (m_data v) - 1" "p \<noteq> m_indexes v ! i" by blast
    then show ?thesis
    proof cases
      case 1
      then have "rid (m_metadata v' ! p) = i" using m s by simp
      then show ?thesis using ix s 1 len by auto
    next
      case 2
      then have "rid (m_metadata v' ! p) = rid (m_metadata v ! (length (m_data v) - 1))" using m by simp
      then show ?thesis using ix s 2 len by auto
    next
      case 3
      then have e: "m_metadata v' ! p = m_metadata v ! p" using m by simp
      have "rid (m_metadata v ! p) \<noteq> i" "rid (m_metadata v ! p) \<noteq> rid (m_metadata v ! (length (m_data v) - 1))"
        using r s 3 by auto
      then show ?thesis using ix r e len by auto
    qed
  qed
  moreover have "length (m_data v) - 1 \<le> length (m_metadata v)"
    using siv_inv_lengths [OF assms(1)] by linarith
  ultimately show ?thesis
    using siv_inv_lengths [OF assms(1)] by (simp add: siv_inv_def len)
qed

lemma erase_contains:
  assumes "siv_inv v" and "erase i v = Some v'"
  shows "contains v' j \<longleftrightarrow> contains v j \<and> j \<noteq> i"
proof (cases "j < length (m_indexes v)")
  case False
  then show ?thesis by (simp add: contains_def erase_lengths [OF assms])
next
  case True
  note s = erase_setting [OF assms(1) erase_Some_contains [OF assms(2)]]
  note len = erase_lengths [OF assms]
  note ix = erase_indexes_nth [OF assms True]
  have tail: "m_indexes v ! j = length (m_data v) - 1 \<longleftrightarrow> j = rid (m_metadata v ! (length (m_data v) - 1))"
    using siv_inv_index [OF assms(1) True] s by auto
  have own: "m_indexes v ! j = m_indexes v ! i \<longleftrightarrow> j = i"
    using siv_inv_index [OF assms(1) True] s by auto
  have lt: "m_indexes v ! i < length (m_data v) - 1" if "m_indexes v ! i \<noteq> length (m_data v) - 1"
    using s(2) that by linarith
  consider "j = i" | "j \<noteq> i" "j = rid (m_metadata v ! (length (m_data v) - 1))"
    | "j \<noteq> i" "j \<noteq> rid (m_metadata v ! (length (m_data v) - 1))" by blast
  then show ?thesis
  proof cases
    case 1
    then show ?thesis using ix by (simp add: contains_def len)
  next
    case 2
    then have "m_indexes v ! i \<noteq> length (m_data v) - 1" using s by auto
    then show ?thesis using 2 ix lt s True by (simp add: contains_def len)
  next
    case 3
    then have "m_indexes v ! j \<noteq> length (m_data v) - 1" using tail by simp
    then have "m_indexes v ! j < length (m_data v) - 1 \<longleftrightarrow> m_indexes v ! j < length (m_data v)"
      by linarith
    then show ?thesis using 3 ix True by (simp add: contains_def len)
  qed
qed

lemma erase_subscript:
  assumes "siv_inv v" and "erase i v = Some v'"
  shows "subscript v' j = (if j = i then None else subscript v j)"
proof (cases "contains v j \<and> j \<noteq> i")
  case False
  then show ?thesis
    using erase_contains [OF assms, of j] by (auto simp: subscript_def contains_def)
next
  case True
  then have j: "j < length (m_indexes v)" and jd: "m_indexes v ! j < length (m_data v)"
    by (simp_all add: contains_def)
  note s = erase_setting [OF assms(1) erase_Some_contains [OF assms(2)]]
  note len = erase_lengths [OF assms]
  note ix = erase_indexes_nth [OF assms j]
  have c': "contains v' j" using erase_contains [OF assms, of j] True by simp
  then have jd': "m_indexes v' ! j < length (m_data v) - 1" by (simp add: contains_def len)
  have own: "m_indexes v ! j \<noteq> m_indexes v ! i"
    using siv_inv_index [OF assms(1) j] s True by auto
  have ne: "m_data v \<noteq> []" using jd by auto
  have "m_data v' ! (m_indexes v' ! j) = m_data v ! (m_indexes v ! j)"
  proof (cases "j = rid (m_metadata v ! (length (m_data v) - 1))")
    case True
    then show ?thesis
      using ix s jd' ne \<open>contains v j \<and> j \<noteq> i\<close>
      by (simp add: erase_fields(1) [OF assms] nth_butlast last_conv_nth)
  next
    case False
    then show ?thesis
      using ix s jd' own \<open>contains v j \<and> j \<noteq> i\<close>
      by (simp add: erase_fields(1) [OF assms] nth_butlast)
  qed
  then show ?thesis
    using True c' by (simp add: subscript_def contains_def)
qed

lemma erase_vector_generation:
  assumes "siv_inv v" and "erase i v = Some v'" and "j < length (m_indexes v)"
  shows "vector_generation v' j =
     (if j = i then map_option (\<lambda>g. g + 1) (vector_generation v j) else vector_generation v j)"
proof -
  note s = erase_setting [OF assms(1) erase_Some_contains [OF assms(2)]]
  note len = erase_lengths [OF assms(1,2)]
  note ix = erase_indexes_nth [OF assms]
  have jm: "m_indexes v ! j < length (m_metadata v)" and jr: "rid (m_metadata v ! (m_indexes v ! j)) = j"
    using siv_inv_index [OF assms(1,3)] by simp_all
  have g: "generation (m_metadata v' ! (m_indexes v' ! j)) =
      (if j = i then generation (m_metadata v ! (m_indexes v ! j)) + 1
       else generation (m_metadata v ! (m_indexes v ! j)))
      \<and> m_indexes v' ! j < length (m_metadata v)"
  proof -
    consider "j = i" | "j \<noteq> i" "j = rid (m_metadata v ! (length (m_data v) - 1))"
      | "j \<noteq> i" "j \<noteq> rid (m_metadata v ! (length (m_data v) - 1))" by blast
    then show ?thesis
    proof cases
      case 1
      then have e: "m_indexes v' ! j = length (m_data v) - 1" using ix by simp
      show ?thesis
        unfolding e using erase_metadata_nth [OF assms(1,2) s(4)] 1 s(4) by simp
    next
      case 2
      then have e: "m_indexes v' ! j = m_indexes v ! i" using ix by simp
      have "m_indexes v ! i \<noteq> length (m_data v) - 1" using 2 s by auto
      then show ?thesis
        unfolding e using erase_metadata_nth [OF assms(1,2) s(3)] 2 s(3,7) by simp
    next
      case 3
      then have e: "m_indexes v' ! j = m_indexes v ! j" using ix by simp
      have "m_indexes v ! j \<noteq> length (m_data v) - 1" "m_indexes v ! j \<noteq> m_indexes v ! i"
        using 3 jr s by auto
      then show ?thesis
        unfolding e using erase_metadata_nth [OF assms(1,2) jm] 3 jm by simp
    qed
  qed
  then show ?thesis
    using assms(3) jm by (auto simp: vector_generation_def len)
qed

text \<open>The invariant reads the slot table only through its \<open>rid\<close> column.\<close>

lemma siv_inv_same_rids:
  assumes "siv_inv v" and "map rid (m_metadata v') = map rid (m_metadata v)"
    and "m_indexes v' = m_indexes v" and "length (m_data v') \<le> length (m_metadata v)"
  shows "siv_inv v'"
proof -
  have len: "length (m_metadata v') = length (m_metadata v)"
    using assms(2) by (metis length_map)
  have "rid (m_metadata v' ! p) = rid (m_metadata v ! p)" if "p < length (m_metadata v)" for p
    using assms(2) that len by (metis nth_map)
  then show ?thesis
    using assms(1,3,4) len by (auto simp: siv_inv_def)
qed

lemma map_rid_incr_at:
  "map rid (M[p := incr_generation (M ! p)]) = map rid M"
  by (cases "p < length M") (simp_all add: map_update list_update_same_conv list_update_beyond)

lemma siv_inv_new_vector: "siv_inv new_vector"
  by (simp add: siv_inv_def new_vector_def)

lemma siv_inv_clear: "siv_inv v \<Longrightarrow> siv_inv (clear v)"
  by (rule siv_inv_same_rids [where v = v]) (simp_all add: clear_def comp_def)

lemma push_back_eq:
  assumes "siv_inv v"
  shows "push_back af x v =
     (if length (m_data v) < length (m_metadata v) then
        (if af = Data_growth_fails then
           Threw bad_alloc
             \<lparr>m_data = m_data v,
              m_metadata = (m_metadata v)[length (m_data v) := incr_generation (m_metadata v ! length (m_data v))],
              m_indexes = m_indexes v\<rparr>
         else
           Returned (rid (m_metadata v ! length (m_data v)))
             \<lparr>m_data = m_data v @ [x],
              m_metadata = (m_metadata v)[length (m_data v) := incr_generation (m_metadata v ! length (m_data v))],
              m_indexes = m_indexes v\<rparr>)
      else if af = Indexes_reserve_fails \<or> af = Metadata_reserve_fails then Threw bad_alloc v
      else if af = Data_growth_fails then
        Threw bad_alloc
          \<lparr>m_data = m_data v,
           m_metadata = m_metadata v @ [\<lparr>rid = length (m_data v), generation = 0\<rparr>],
           m_indexes = m_indexes v @ [length (m_data v)]\<rparr>
      else
        Returned (length (m_data v))
          \<lparr>m_data = m_data v @ [x],
           m_metadata = m_metadata v @ [\<lparr>rid = length (m_data v), generation = 0\<rparr>],
           m_indexes = m_indexes v @ [length (m_data v)]\<rparr>)"
proof (cases "length (m_data v) < length (m_metadata v)")
  case True
  have r: "rid (m_metadata v ! length (m_data v)) < length (m_indexes v)"
    "m_indexes v ! rid (m_metadata v ! length (m_data v)) = length (m_data v)"
    using siv_inv_rid [OF assms True] by simp_all
  have "(m_indexes v)[rid (m_metadata v ! length (m_data v)) := length (m_data v)] = m_indexes v"
    using r by (simp add: list_update_same_conv)
  then show ?thesis
    using True r(1)
    by (simp add: push_back_def get_free_slot_def get_free_id_def Let_def)
next
  case False
  then have e: "length (m_metadata v) = length (m_data v)" "length (m_indexes v) = length (m_data v)"
    using siv_inv_lengths [OF assms] by simp_all
  have "(m_indexes v @ [length (m_data v)])[length (m_data v) := length (m_data v)] = m_indexes v @ [length (m_data v)]"
    using e(2) by (metis list_update_length)
  then show ?thesis
    using False
    by (simp add: push_back_def get_free_slot_def get_free_id_def Let_def e)
qed

lemma push_back_Returned:
  assumes "siv_inv v" and "push_back af x v = Returned k v'"
  shows "m_data v' = m_data v @ [x]" and "k = next_id v" and "recycled v v' \<or> minted v v'"
    and "af \<noteq> Data_growth_fails"
  using assms(2) siv_inv_lengths [OF assms(1)] unfolding push_back_eq [OF assms(1)]
  by (auto simp: next_id_def recycled_def minted_def split: if_splits)

lemma push_back_Threw:
  assumes "siv_inv v" and "push_back af x v = Threw e v'"
  shows "e = bad_alloc" and "m_data v' = m_data v" and "v' = v \<or> recycled v v' \<or> minted v v'"
    and "af \<noteq> No_fault"
  using assms(2) siv_inv_lengths [OF assms(1)] unfolding push_back_eq [OF assms(1)]
  by (auto simp: recycled_def minted_def split: if_splits)

lemma push_back_defined:
  assumes "siv_inv v"
  shows "push_back af x v \<noteq> Undefined"
  unfolding push_back_eq [OF assms] by simp

lemma push_back_No_fault:
  assumes "siv_inv v"
  shows "\<exists>v'. push_back No_fault x v = Returned (next_id v) v'"
  unfolding push_back_eq [OF assms] using siv_inv_lengths [OF assms]
  by (auto simp: next_id_def)

lemma siv_inv_recycled:
  assumes "siv_inv v" and "recycled v v'" and "length (m_data v') \<le> Suc (length (m_data v))"
  shows "siv_inv v'"
proof (rule siv_inv_same_rids [OF assms(1)])
  show "map rid (m_metadata v') = map rid (m_metadata v)"
    using assms(2) by (simp add: recycled_def map_rid_incr_at)
  show "m_indexes v' = m_indexes v" using assms(2) by (simp add: recycled_def)
  show "length (m_data v') \<le> length (m_metadata v)"
    using assms(2,3) by (simp add: recycled_def)
qed

lemma siv_inv_minted:
  assumes "siv_inv v" and "minted v v'" and "length (m_data v') \<le> Suc (length (m_data v))"
  shows "siv_inv v'"
proof -
  let ?n = "length (m_data v)"
  have M: "m_metadata v' = m_metadata v @ [\<lparr>rid = ?n, generation = 0\<rparr>]"
    and I: "m_indexes v' = m_indexes v @ [?n]"
    and n: "length (m_metadata v) = ?n" "length (m_indexes v) = ?n"
    using assms(2) by (simp_all add: minted_def)
  have "rid (m_metadata v' ! p) < length (m_indexes v') \<and> m_indexes v' ! rid (m_metadata v' ! p) = p"
    if "p < Suc ?n" for p
  proof (cases "p < ?n")
    case True
    then show ?thesis
      using siv_inv_rid [OF assms(1), of p] n by (simp add: M I nth_append)
  next
    case False
    then have "p = ?n" using that by simp
    then show ?thesis using n by (simp add: M I nth_append)
  qed
  then show ?thesis
    using assms(3) n by (simp add: siv_inv_def M I)
qed

lemma siv_inv_push_back_Returned:
  assumes "siv_inv v" and "push_back af x v = Returned k v'"
  shows "siv_inv v'"
  using push_back_Returned(1,3) [OF assms] siv_inv_recycled [OF assms(1)] siv_inv_minted [OF assms(1)]
  by auto

lemma siv_inv_push_back_Threw:
  assumes "siv_inv v" and "push_back af x v = Threw e v'"
  shows "siv_inv v'"
  using push_back_Threw(2,3) [OF assms] siv_inv_recycled [OF assms(1)] siv_inv_minted [OF assms(1)] assms(1)
  by auto

lemma next_id_fresh:
  assumes "siv_inv v"
  shows "\<not> contains v (next_id v)"
proof (cases "length (m_data v) < length (m_metadata v)")
  case True
  then show ?thesis
    using siv_inv_rid [OF assms True] by (simp add: next_id_def contains_def)
next
  case False
  then show ?thesis
    using siv_inv_lengths [OF assms] by (simp add: next_id_def contains_def)
qed

lemma index_eq_iff:
  assumes "siv_inv v" and "j < length (m_indexes v)" and "p < length (m_metadata v)"
  shows "m_indexes v ! j = p \<longleftrightarrow> j = rid (m_metadata v ! p)"
  using siv_inv_index [OF assms(1,2)] siv_inv_rid [OF assms(1,3)] by auto

lemma push_back_subscript:
  assumes "siv_inv v" and "push_back af x v = Returned k v'"
  shows "subscript v' j = (if j = k then Some x else subscript v j)"
proof -
  note r = push_back_Returned [OF assms]
  let ?n = "length (m_data v)"
  from r(3) show ?thesis
  proof
    assume rc: "recycled v v'"
    then have lt: "?n < length (m_metadata v)" and I: "m_indexes v' = m_indexes v"
      by (simp_all add: recycled_def)
    have k: "k = rid (m_metadata v ! ?n)" using r(2) lt by (simp add: next_id_def)
    show ?thesis
    proof (cases "j < length (m_indexes v)")
      case False
      moreover have "k < length (m_indexes v)" using siv_inv_rid [OF assms(1) lt] k by simp
      ultimately show ?thesis by (auto simp: subscript_def I)
    next
      case True
      have "m_indexes v ! j = ?n \<longleftrightarrow> j = k"
        using index_eq_iff [OF assms(1) True lt] k by simp
      then show ?thesis
        using True by (auto simp: subscript_def I r(1) nth_append)
    qed
  next
    assume mt: "minted v v'"
    then have n: "length (m_metadata v) = ?n" "length (m_indexes v) = ?n"
      and I: "m_indexes v' = m_indexes v @ [?n]"
      by (simp_all add: minted_def)
    have k: "k = ?n" using r(2) n by (simp add: next_id_def)
    show ?thesis
    proof (cases "j < ?n")
      case True
      then have "m_indexes v ! j < ?n" using siv_inv_index [OF assms(1), of j] n by simp
      then show ?thesis
        using True n k by (simp add: subscript_def I r(1) nth_append)
    next
      case False
      then show ?thesis
        using n k by (auto simp: subscript_def I r(1) nth_append)
    qed
  qed
qed

lemma push_back_Threw_subscript:
  assumes "siv_inv v" and "push_back af x v = Threw e v'"
  shows "subscript v' j = subscript v j"
proof -
  note r = push_back_Threw [OF assms]
  let ?n = "length (m_data v)"
  from r(3) consider "v' = v" | "recycled v v'" | "minted v v'" by blast
  then show ?thesis
  proof cases
    case 1
    then show ?thesis by simp
  next
    case 2
    then show ?thesis by (simp add: subscript_def recycled_def r(2))
  next
    case 3
    then have n: "length (m_metadata v) = ?n" "length (m_indexes v) = ?n"
      and I: "m_indexes v' = m_indexes v @ [?n]"
      by (simp_all add: minted_def)
    show ?thesis
      using n by (auto simp: subscript_def I r(2) nth_append)
  qed
qed

lemma recycled_generation:
  assumes "siv_inv v" and "recycled v v'" and "j < length (m_indexes v)"
  shows "vector_generation v' j =
     (if j = next_id v then map_option (\<lambda>g. g + 1) (vector_generation v j) else vector_generation v j)"
proof -
  let ?n = "length (m_data v)"
  have lt: "?n < length (m_metadata v)" and I: "m_indexes v' = m_indexes v"
    and M: "m_metadata v' = (m_metadata v)[?n := incr_generation (m_metadata v ! ?n)]"
    using assms(2) by (simp_all add: recycled_def)
  have k: "next_id v = rid (m_metadata v ! ?n)" using lt by (simp add: next_id_def)
  have e: "m_indexes v ! j = ?n \<longleftrightarrow> j = next_id v"
    using index_eq_iff [OF assms(1,3) lt] k by simp
  have jm: "m_indexes v ! j < length (m_metadata v)" using siv_inv_index [OF assms(1,3)] by simp
  show ?thesis
    using assms(3) jm e by (auto simp: vector_generation_def I M nth_list_update)
qed

lemma minted_generation:
  assumes "siv_inv v" and "minted v v'"
  shows "j < length (m_indexes v) \<Longrightarrow> vector_generation v' j = vector_generation v j"
    and "vector_generation v' (length (m_indexes v)) = Some 0"
    and "vector_generation v (length (m_indexes v)) = None"
proof -
  let ?n = "length (m_data v)"
  have n: "length (m_metadata v) = ?n" "length (m_indexes v) = ?n"
    and I: "m_indexes v' = m_indexes v @ [?n]"
    and M: "m_metadata v' = m_metadata v @ [\<lparr>rid = ?n, generation = 0\<rparr>]"
    using assms(2) by (simp_all add: minted_def)
  show "vector_generation v' j = vector_generation v j" if "j < length (m_indexes v)"
    using siv_inv_index [OF assms(1) that] that n by (simp add: vector_generation_def I M nth_append)
  show "vector_generation v' (length (m_indexes v)) = Some 0"
    using n by (simp add: vector_generation_def I M nth_append)
  show "vector_generation v (length (m_indexes v)) = None"
    by (simp add: vector_generation_def)
qed

lemma clear_vector_generation:
  assumes "siv_inv v"
  shows "vector_generation (clear v) j = map_option (\<lambda>g. g + 1) (vector_generation v j)"
  by (simp add: vector_generation_def clear_def)

lemma clear_contains: "\<not> contains (clear v) j"
  by (simp add: contains_def clear_def)

lemma clear_subscript: "subscript (clear v) j = None"
  by (simp add: subscript_def clear_def)

lemma erase_defined:
  assumes "siv_inv v" and "contains v i"
  shows "\<exists>v'. erase i v = Some v'"
  using erase_eq [OF assms] by simp

lemma erase_at_eq:
  assumes "siv_inv v" and "idx < length (m_data v)"
  shows "erase_at idx v = erase (rid (m_metadata v ! idx)) v"
    and "contains v (rid (m_metadata v ! idx))"
    and "m_indexes v ! rid (m_metadata v ! idx) = idx"
proof -
  have m: "idx < length (m_metadata v)" using siv_inv_lengths [OF assms(1)] assms(2) by linarith
  show "erase_at idx v = erase (rid (m_metadata v ! idx)) v"
    using assms(2) m by (simp add: erase_at_def)
  show "contains v (rid (m_metadata v ! idx))" and "m_indexes v ! rid (m_metadata v ! idx) = idx"
    using siv_inv_rid [OF assms(1) m] assms(2) by (simp_all add: contains_def)
qed

lemma erase_at_Some:
  assumes "erase_at idx v = Some v'"
  shows "idx < length (m_data v)" and "erase (rid (m_metadata v ! idx)) v = Some v'"
  using assms by (simp_all add: erase_at_def split: if_splits)

lemma erase_at_defined:
  assumes "siv_inv v" and "idx < length (m_data v)"
  shows "\<exists>v'. erase_at idx v = Some v'"
  using erase_at_eq(1,2) [OF assms] erase_defined [OF assms(1)] by simp

lemma siv_inv_erase_at:
  assumes "siv_inv v" and "erase_at idx v = Some v'"
  shows "siv_inv v'"
  using siv_inv_erase [OF assms(1) erase_at_Some(2) [OF assms(2)]] .

lemma pop_back_Some:
  assumes "pop_back v = Some v'"
  shows "m_data v \<noteq> []" and "erase_at (length (m_data v) - 1) v = Some v'"
  using assms by (simp_all add: pop_back_def split: if_splits)

lemma siv_inv_pop_back:
  assumes "siv_inv v" and "pop_back v = Some v'"
  shows "siv_inv v'"
  using siv_inv_erase_at [OF assms(1) pop_back_Some(2) [OF assms(2)]] .

lemma pop_back_defined:
  assumes "siv_inv v" and "m_data v \<noteq> []"
  shows "\<exists>v'. pop_back v = Some v'"
  using erase_at_defined [OF assms(1), of "length (m_data v) - 1"] assms(2)
  by (simp add: pop_back_def)

lemma erase_if_from_defined:
  "siv_inv v \<Longrightarrow> \<exists>v'. erase_if_from P i v = Some v' \<and> siv_inv v' \<and>
      length (m_metadata v') = length (m_metadata v) \<and> length (m_indexes v') = length (m_indexes v)"
proof (induction P i v rule: erase_if_from.induct)
  case (1 P i v)
  show ?case
  proof (cases "i < length (m_data v)")
    case False
    then show ?thesis using "1.prems" by (simp add: erase_if_from.simps [of P i v])
  next
    case True
    show ?thesis
    proof (cases "P (m_data v ! i)")
      case False
      then show ?thesis
        using "1.IH"(2) [OF True False "1.prems"] True by (simp add: erase_if_from.simps [of P i v])
    next
      case P: True
      obtain v1 where v1: "erase_at i v = Some v1"
        using erase_at_defined [OF "1.prems" True] by blast
      have inv1: "siv_inv v1" using siv_inv_erase_at [OF "1.prems" v1] .
      have len: "length (m_metadata v1) = length (m_metadata v)" "length (m_indexes v1) = length (m_indexes v)"
        using erase_lengths [OF "1.prems" erase_at_Some(2) [OF v1]] by simp_all
      show ?thesis
        using "1.IH"(1) [OF True P v1 inv1] True P v1 len
        by (simp add: erase_if_from.simps [of P i v])
    qed
  qed
qed

lemma siv_inv_erase_if:
  assumes "siv_inv v" and "erase_if P v = Some v'"
  shows "siv_inv v'"
  using erase_if_from_defined [OF assms(1), of P 0] assms(2) by (auto simp: erase_if_def)

lemma siv_inv_exec:
  assumes "siv_inv v" and "exec opr v = Some v'"
  shows "siv_inv v'"
proof (cases opr)
  case (Push_back af x)
  then show ?thesis
    using assms siv_inv_push_back_Returned [OF assms(1)] siv_inv_push_back_Threw [OF assms(1)]
    by (auto split: insert_result.splits)
next
  case (Erase i)
  then show ?thesis using assms siv_inv_erase by auto
next
  case (Erase_at idx)
  then show ?thesis using assms siv_inv_erase_at by auto
next
  case (Erase_if P)
  then show ?thesis using assms siv_inv_erase_if by auto
next
  case Pop_back
  then show ?thesis using assms siv_inv_pop_back by auto
next
  case Clear
  then show ?thesis using assms siv_inv_clear by auto
qed

lemma siv_inv_run:
  "siv_inv v \<Longrightarrow> run oprs v = Some v' \<Longrightarrow> siv_inv v'"
proof (induction oprs arbitrary: v)
  case Nil
  then show ?case by simp
next
  case (Cons opr oprs)
  then show ?case by (auto split: option.splits dest: siv_inv_exec)
qed

lemma doomed_beyond: "length (m_data v) \<le> i \<Longrightarrow> \<not> doomed P i v j"
  by (auto simp: doomed_def contains_def)

lemma doomed_advance:
  assumes "\<not> P (m_data v ! i)"
  shows "doomed P (Suc i) v j \<longleftrightarrow> doomed P i v j"
proof (cases "m_indexes v ! j = i")
  case True
  then show ?thesis using assms by (simp add: doomed_def)
next
  case False
  then have "Suc i \<le> m_indexes v ! j \<longleftrightarrow> i \<le> m_indexes v ! j" by linarith
  then show ?thesis by (simp add: doomed_def)
qed

lemma doomed_erase_at:
  assumes "siv_inv v" and "erase_at i v = Some v1"
  shows "doomed P i v1 j \<longleftrightarrow> doomed P i v j \<and> j \<noteq> rid (m_metadata v ! i)"
proof -
  let ?k = "rid (m_metadata v ! i)"
  let ?l = "length (m_data v) - 1"
  note i = erase_at_Some(1) [OF assms(2)]
  note e = erase_at_Some(2) [OF assms(2)]
  note k = erase_at_eq(2,3) [OF assms(1) i]
  note c = erase_contains [OF assms(1) e]
  show ?thesis
  proof (cases "contains v j \<and> j \<noteq> ?k")
    case False
    then show ?thesis using c [of j] by (auto simp: doomed_def)
  next
    case True
    then have j: "j < length (m_indexes v)" and jk: "j \<noteq> ?k" and cj: "contains v j"
      by (simp_all add: contains_def)
    have c1: "contains v1 j" using c [of j] True by simp
    have "subscript v1 j = subscript v j" using erase_subscript [OF assms(1) e, of j] jk by simp
    then have val: "m_data v1 ! (m_indexes v1 ! j) = m_data v ! (m_indexes v ! j)"
      using c1 cj by (simp add: subscript_def contains_def)
    have pos: "i \<le> m_indexes v1 ! j \<longleftrightarrow> i \<le> m_indexes v ! j"
    proof (cases "j = rid (m_metadata v ! ?l)")
      case True
      have "m_indexes v ! j = ?l"
        using erase_setting(7) [OF assms(1) k(1)] True by simp
      moreover have "i \<le> ?l" using i by linarith
      moreover have "m_indexes v1 ! j = i"
        using erase_indexes_nth [OF assms(1) e j] jk True k(2) by simp
      ultimately show ?thesis by simp
    next
      case False
      then show ?thesis using erase_indexes_nth [OF assms(1) e j] jk by simp
    qed
    show ?thesis using True c1 val pos by (simp add: doomed_def)
  qed
qed

lemma erase_if_from_effect:
  "siv_inv v \<Longrightarrow> erase_if_from P i v = Some v' \<Longrightarrow>
     subscript v' j = (if doomed P i v j then None else subscript v j) \<and>
     (j < length (m_indexes v) \<longrightarrow>
        vector_generation v' j =
          (if doomed P i v j then map_option (\<lambda>g. g + 1) (vector_generation v j)
           else vector_generation v j))"
proof (induction P i v rule: erase_if_from.induct)
  case (1 P i v)
  show ?case
  proof (cases "i < length (m_data v)")
    case False
    then have "v' = v" using "1.prems"(2) by (simp add: erase_if_from.simps [of P i v])
    moreover have "\<not> doomed P i v j" using False by (simp add: doomed_beyond)
    ultimately show ?thesis by simp
  next
    case True
    show ?thesis
    proof (cases "P (m_data v ! i)")
      case False
      then have "erase_if_from P (Suc i) v = Some v'"
        using "1.prems"(2) True by (simp add: erase_if_from.simps [of P i v])
      from "1.IH"(2) [OF True False "1.prems"(1) this] show ?thesis
        using doomed_advance [of P v i j] False by simp
    next
      case P: True
      let ?k = "rid (m_metadata v ! i)"
      obtain v1 where v1: "erase_at i v = Some v1"
        using erase_at_defined [OF "1.prems"(1) True] by blast
      note e = erase_at_Some(2) [OF v1]
      have inv1: "siv_inv v1" using siv_inv_erase_at [OF "1.prems"(1) v1] .
      have rest: "erase_if_from P i v1 = Some v'"
        using "1.prems"(2) True P v1 by (simp add: erase_if_from.simps [of P i v])
      note IH = "1.IH"(1) [OF True P v1 inv1 rest]
      note d = doomed_erase_at [OF "1.prems"(1) v1, of P j]
      have dk: "doomed P i v ?k"
        using erase_at_eq(2,3) [OF "1.prems"(1) True] P by (simp add: doomed_def)
      have len: "length (m_indexes v1) = length (m_indexes v)"
        using erase_lengths(2) [OF "1.prems"(1) e] .
      have s: "subscript v1 j = (if j = ?k then None else subscript v j)"
        using erase_subscript [OF "1.prems"(1) e] .
      have g: "vector_generation v1 j =
          (if j = ?k then map_option (\<lambda>g. g + 1) (vector_generation v j) else vector_generation v j)"
        if "j < length (m_indexes v)"
        using erase_vector_generation [OF "1.prems"(1) e that] .
      show ?thesis
      proof (cases "j = ?k")
        case True
        then show ?thesis using IH d dk s g len by simp
      next
        case False
        then show ?thesis using IH d s g len by simp
      qed
    qed
  qed
qed

lemma live_iff_position:
  "live v i \<longleftrightarrow> (\<exists>p. p < length (m_data v) \<and> p < length (m_metadata v) \<and> rid (m_metadata v ! p) = i)"
proof
  assume "live v i"
  then obtain q where q: "q < length (take (length (m_data v)) (m_metadata v))"
      "rid (take (length (m_data v)) (m_metadata v) ! q) = i"
    by (auto simp: live_def in_set_conv_nth)
  then have "q < length (m_data v) \<and> q < length (m_metadata v) \<and> rid (m_metadata v ! q) = i"
    by simp
  then show "\<exists>p. p < length (m_data v) \<and> p < length (m_metadata v) \<and> rid (m_metadata v ! p) = i" ..
next
  assume "\<exists>p. p < length (m_data v) \<and> p < length (m_metadata v) \<and> rid (m_metadata v ! p) = i"
  then obtain p where p: "p < length (m_data v)" "p < length (m_metadata v)" "rid (m_metadata v ! p) = i"
    by blast
  then have "take (length (m_data v)) (m_metadata v) ! p \<in> set (take (length (m_data v)) (m_metadata v))"
    by (simp del: nth_take)
  then show "live v i" using p by (auto simp: live_def image_iff)
qed

lemma live_iff_contains:
  assumes "siv_inv v"
  shows "live v i \<longleftrightarrow> contains v i"
proof
  assume "live v i"
  then obtain p where p: "p < length (m_data v)" "p < length (m_metadata v)" "rid (m_metadata v ! p) = i"
    by (auto simp: live_iff_position)
  then show "contains v i" using siv_inv_rid [OF assms p(2)] by (auto simp: contains_def)
next
  assume c: "contains v i"
  then have i: "i < length (m_indexes v)" and d: "m_indexes v ! i < length (m_data v)"
    by (simp_all add: contains_def)
  show "live v i"
    unfolding live_iff_position using siv_inv_index [OF assms i] d by blast
qed

lemma hole_iff_above:
  assumes "siv_inv v" and "p < length (m_metadata v)"
  shows "hole v p \<longleftrightarrow> length (m_data v) \<le> p"
  using siv_inv_rid [OF assms] assms(2)
  by (auto simp: hole_def live_iff_contains [OF assms(1)] contains_def)

text \<open>
  C1. After every sequence of public operations on a container, an identifier is live
  (it is the \<open>rid\<close> of a slot that holds an element) iff
  \<open>id < m_indexes.size() && m_indexes[id] < m_data.size()\<close>; every live position \<open>p\<close> has
  \<open>m_indexes[m_metadata[p].rid] == p\<close>; and the holes (the slots whose \<open>rid\<close> names no live
  element) are exactly the slots at positions \<open>m_data.size()\<close> and above.
\<close>

theorem structural_invariant:
  assumes "run oprs new_vector = Some v"
  shows "(\<forall>i. live v i \<longleftrightarrow> contains v i) \<and>
         (\<forall>p<length (m_data v). p < length (m_metadata v) \<and>
            rid (m_metadata v ! p) < length (m_indexes v) \<and> m_indexes v ! rid (m_metadata v ! p) = p) \<and>
         (\<forall>p<length (m_metadata v). hole v p \<longleftrightarrow> length (m_data v) \<le> p)"
proof -
  have inv: "siv_inv v" using siv_inv_run [OF siv_inv_new_vector assms] .
  have "p < length (m_metadata v) \<and> rid (m_metadata v ! p) < length (m_indexes v) \<and>
        m_indexes v ! rid (m_metadata v ! p) = p" if "p < length (m_data v)" for p
  proof -
    have "p < length (m_metadata v)" using siv_inv_lengths [OF inv] that by linarith
    then show ?thesis using siv_inv_rid [OF inv] by simp
  qed
  then show ?thesis
    using live_iff_contains [OF inv] hole_iff_above [OF inv] by blast
qed

theorem structural_invariant_witness:
  "run [Push_back No_fault (10::nat), Push_back No_fault 20, Push_back No_fault 30, Erase 0] new_vector =
     Some \<lparr>m_data = [30, 20],
           m_metadata = [\<lparr>rid = 2, generation = 0\<rparr>, \<lparr>rid = 1, generation = 0\<rparr>, \<lparr>rid = 0, generation = 1\<rparr>],
           m_indexes = [2, 1, 0]\<rparr> \<and>
   live \<lparr>m_data = [30, 20::nat],
           m_metadata = [\<lparr>rid = 2, generation = 0\<rparr>, \<lparr>rid = 1, generation = 0\<rparr>, \<lparr>rid = 0, generation = 1\<rparr>],
           m_indexes = [2, 1, 0]\<rparr> 2 \<and>
   hole \<lparr>m_data = [30, 20::nat],
           m_metadata = [\<lparr>rid = 2, generation = 0\<rparr>, \<lparr>rid = 1, generation = 0\<rparr>, \<lparr>rid = 0, generation = 1\<rparr>],
           m_indexes = [2, 1, 0]\<rparr> 2"
proof -
  let ?S = "\<lparr>m_data = [30, 20::nat],
           m_metadata = [\<lparr>rid = 2, generation = 0\<rparr>, \<lparr>rid = 1, generation = 0\<rparr>, \<lparr>rid = 0, generation = 1\<rparr>],
           m_indexes = [2, 1, 0]\<rparr>"
  have r: "run [Push_back No_fault (10::nat), Push_back No_fault 20, Push_back No_fault 30, Erase 0] new_vector = Some ?S"
    by (simp add: eval_defs)
  have c: "contains ?S 2" by (simp add: contains_def)
  show ?thesis
    using structural_invariant [OF r] r c by simp
qed

lemma subscript_None_iff: "subscript v j = None \<longleftrightarrow> \<not> contains v j"
  by (simp add: subscript_def contains_def)


lemma is_valid_iff_generation: "is_valid v i g \<longleftrightarrow> vector_generation v i = Some g"
  by (auto simp: is_valid_def vector_generation_def)

lemma valid_iff_generation:
  "valid h v \<longleftrightarrow> m_vector h \<and> vector_generation v (m_id h) = Some (m_generation h)"
  by (simp add: valid_def is_valid_iff_generation)

lemma make_handle_Some:
  assumes "make_handle i v = Some h"
  shows "contains v i" and "m_id h = i" and "m_vector h"
    and "vector_generation v i = Some (m_generation h)"
  using assms by (auto simp: make_handle_def contains_def vector_generation_def split: if_splits)

lemma make_handle_defined:
  assumes "siv_inv v" and "contains v i"
  shows "\<exists>h. make_handle i v = Some h"
  using assms(2) siv_inv_lengths [OF assms(1)] by (auto simp: make_handle_def contains_def)

lemma make_handle_at_eq:
  assumes "siv_inv v" and "make_handle_at idx v = Some h"
  shows "make_handle (rid (m_metadata v ! idx)) v = Some h"
proof -
  have i: "idx < length (m_data v)" and m: "idx < length (m_metadata v)"
    using assms(2) by (simp_all add: make_handle_at_def split: if_splits)
  show ?thesis
    using siv_inv_rid [OF assms(1) m] i m assms(2) by (simp add: make_handle_def make_handle_at_def)
qed

lemma vector_generation_Some:
  assumes "siv_inv v" and "i < length (m_indexes v)"
  shows "vector_generation v i = Some (generation (m_metadata v ! (m_indexes v ! i)))"
  using siv_inv_index [OF assms] assms(2) by (simp add: vector_generation_def)

lemma erase_if_Some:
  assumes "siv_inv v" and "erase_if P v = Some v'"
  shows "length (m_metadata v') = length (m_metadata v)" and "length (m_indexes v') = length (m_indexes v)"
  using erase_if_from_defined [OF assms(1), of P 0] assms(2) by (auto simp: erase_if_def)

text \<open>One public call changes the generation of a minted identifier by nothing or by one increment.\<close>

lemma exec_generation_step:
  assumes "siv_inv v" and "exec opr v = Some v'" and "i < length (m_indexes v)"
  shows "length (m_indexes v) \<le> length (m_indexes v') \<and>
         (vector_generation v' i = vector_generation v i \<or>
          vector_generation v' i = map_option (\<lambda>g. g + 1) (vector_generation v i))"
proof (cases opr)
  case (Push_back af x)
  then have "(\<exists>k. push_back af x v = Returned k v') \<or> (\<exists>e. push_back af x v = Threw e v')"
    using assms(2) by (auto split: insert_result.splits)
  then have "v' = v \<or> recycled v v' \<or> minted v v'"
    using push_back_Returned(3) [OF assms(1)] push_back_Threw(3) [OF assms(1)] by blast
  then consider "v' = v" | "recycled v v'" | "minted v v'" by blast
  then show ?thesis
  proof cases
    case 1
    then show ?thesis by simp
  next
    case 2
    then show ?thesis using recycled_generation [OF assms(1) 2 assms(3)] by (simp add: recycled_def)
  next
    case 3
    then show ?thesis using minted_generation(1) [OF assms(1) 3 assms(3)] by (simp add: minted_def)
  qed
next
  case (Erase j)
  then have e: "erase j v = Some v'" using assms(2) by simp
  show ?thesis
    using erase_vector_generation [OF assms(1) e assms(3)] erase_lengths(2) [OF assms(1) e] by simp
next
  case (Erase_at idx)
  then have e: "erase (rid (m_metadata v ! idx)) v = Some v'"
    using assms(2) erase_at_Some(2) by simp
  show ?thesis
    using erase_vector_generation [OF assms(1) e assms(3)] erase_lengths(2) [OF assms(1) e] by simp
next
  case (Erase_if P)
  then have e: "erase_if_from P 0 v = Some v'" using assms(2) by (simp add: erase_if_def)
  show ?thesis
    using erase_if_from_effect [OF assms(1) e, of i] erase_if_from_defined [OF assms(1), of P 0] e assms(3)
    by auto
next
  case Pop_back
  then have "pop_back v = Some v'" using assms(2) by simp
  then have e: "erase (rid (m_metadata v ! (length (m_data v) - 1))) v = Some v'"
    by (rule erase_at_Some(2) [OF pop_back_Some(2)])
  show ?thesis
    using erase_vector_generation [OF assms(1) e assms(3)] erase_lengths(2) [OF assms(1) e] by simp
next
  case Clear
  then show ?thesis using assms(2) clear_vector_generation [OF assms(1)] by (auto simp: clear_def)
qed

lemma run_generation:
  "siv_inv v \<Longrightarrow> run oprs v = Some v' \<Longrightarrow> i < length (m_indexes v) \<Longrightarrow>
     length (m_indexes v) \<le> length (m_indexes v') \<and>
     (\<exists>n\<le>length oprs. vector_generation v' i = map_option (\<lambda>g. g + of_nat n) (vector_generation v i))"
proof (induction oprs arbitrary: v)
  case Nil
  then show ?case by (simp add: option.map_ident)
next
  case (Cons opr oprs)
  from Cons.prems(2) obtain v1 where v1: "exec opr v = Some v1" and r: "run oprs v1 = Some v'"
    by (auto split: option.splits)
  note st = exec_generation_step [OF Cons.prems(1) v1 Cons.prems(3)]
  have inv1: "siv_inv v1" using siv_inv_exec [OF Cons.prems(1) v1] .
  have i1: "i < length (m_indexes v1)" using st Cons.prems(3) by linarith
  from Cons.IH [OF inv1 r i1] obtain n where n: "n \<le> length oprs"
    "vector_generation v' i = map_option (\<lambda>g. g + of_nat n) (vector_generation v1 i)"
    and len: "length (m_indexes v1) \<le> length (m_indexes v')" by blast
  from st have "vector_generation v1 i = vector_generation v i \<or>
      vector_generation v1 i = map_option (\<lambda>g. g + 1) (vector_generation v i)" by simp
  then have "\<exists>m\<le>Suc (length oprs). vector_generation v' i = map_option (\<lambda>g. g + of_nat m) (vector_generation v i)"
  proof
    assume "vector_generation v1 i = vector_generation v i"
    then have "vector_generation v' i = map_option (\<lambda>g. g + of_nat n) (vector_generation v i)"
      using n(2) by simp
    then show ?thesis using n(1) le_Suc_eq by blast
  next
    assume "vector_generation v1 i = map_option (\<lambda>g. g + 1) (vector_generation v i)"
    then have "vector_generation v' i = map_option (\<lambda>g. g + of_nat (Suc n)) (vector_generation v i)"
      using n(2) by (cases "vector_generation v i") (simp_all add: algebra_simps)
    then show ?thesis using n(1) Suc_le_mono by blast
  qed
  then show ?case using st len by simp
qed

text \<open>A 64-bit counter that moved by \<open>n\<close> increments, \<open>0 < n < 2^64\<close>, has changed.\<close>

lemma word64_add_neq:
  fixes g :: "64 word"
  assumes "0 < n" and "n < 2 ^ 64"
  shows "g + of_nat n \<noteq> g"
proof
  assume "g + of_nat n = g"
  then have "(of_nat n :: 64 word) = 0" by simp
  then have "2 ^ 64 dvd n" by (simp add: word_of_nat_eq_0_iff)
  then show False using assms by (auto dest: dvd_imp_le)
qed

lemma exec_subscript_kept:
  assumes "siv_inv v" and "exec opr v = Some v'" and "contains v j" and "contains v' j"
  shows "subscript v' j = subscript v j"
proof -
  have n: "subscript v' j \<noteq> None" using assms(4) by (simp add: subscript_None_iff)
  show ?thesis
  proof (cases opr)
    case (Push_back af x)
    then consider k where "push_back af x v = Returned k v'" | e where "push_back af x v = Threw e v'"
      using assms(2) by (auto split: insert_result.splits)
    then show ?thesis
    proof cases
      case 1
      have "j \<noteq> k" using push_back_Returned(2) [OF assms(1) 1] next_id_fresh [OF assms(1)] assms(3) by auto
      then show ?thesis using push_back_subscript [OF assms(1) 1, of j] by simp
    next
      case 2
      then show ?thesis using push_back_Threw_subscript [OF assms(1) 2] by simp
    qed
  next
    case (Erase i)
    then have e: "erase i v = Some v'" using assms(2) by simp
    show ?thesis using erase_subscript [OF assms(1) e, of j] n by (simp split: if_splits)
  next
    case (Erase_at idx)
    then have e: "erase (rid (m_metadata v ! idx)) v = Some v'"
      using assms(2) erase_at_Some(2) by simp
    show ?thesis using erase_subscript [OF assms(1) e, of j] n by (simp split: if_splits)
  next
    case (Erase_if P)
    then have e: "erase_if_from P 0 v = Some v'" using assms(2) by (simp add: erase_if_def)
    show ?thesis using erase_if_from_effect [OF assms(1) e, of j] n by (simp split: if_splits)
  next
    case Pop_back
    then have "pop_back v = Some v'" using assms(2) by simp
    then have e: "erase (rid (m_metadata v ! (length (m_data v) - 1))) v = Some v'"
      by (rule erase_at_Some(2) [OF pop_back_Some(2)])
    show ?thesis using erase_subscript [OF assms(1) e, of j] n by (simp split: if_splits)
  next
    case Clear
    then show ?thesis using assms(2,4) clear_contains by auto
  qed
qed

lemma states_subscript_kept:
  "siv_inv v \<Longrightarrow> states oprs v = Some vs \<Longrightarrow> subscript v k = Some x \<Longrightarrow>
     \<forall>s\<in>set vs. contains s k \<Longrightarrow> s \<in> set vs \<Longrightarrow> subscript s k = Some x"
proof (induction oprs arbitrary: v vs)
  case Nil
  then show ?case by simp
next
  case (Cons opr oprs)
  from Cons.prems(2) obtain v1 vs1 where v1: "exec opr v = Some v1"
    and vs1: "states oprs v1 = Some vs1" and vs: "vs = v1 # vs1"
    by (auto split: option.splits)
  have inv1: "siv_inv v1" using siv_inv_exec [OF Cons.prems(1) v1] .
  have c: "contains v k" using Cons.prems(3) subscript_None_iff [of v k] by auto
  have c1: "contains v1 k" using Cons.prems(4) vs by simp
  have s1: "subscript v1 k = Some x"
    using exec_subscript_kept [OF Cons.prems(1) v1 c c1] Cons.prems(3) by simp
  show ?case
  proof (cases "s = v1")
    case True
    then show ?thesis using s1 by simp
  next
    case False
    then have "s \<in> set vs1" using Cons.prems(5) vs by simp
    moreover have "\<forall>s\<in>set vs1. contains s k" using Cons.prems(4) vs by simp
    ultimately show ?thesis using Cons.IH [OF inv1 vs1 s1] by blast
  qed
qed





lemma exec_indexes_length:
  assumes "siv_inv v" and "exec opr v = Some v'"
  shows "length (m_indexes v) \<le> length (m_indexes v')"
proof (cases "m_indexes v = []")
  case True
  then show ?thesis by simp
next
  case False
  then have "0 < length (m_indexes v)" by simp
  from exec_generation_step [OF assms this] show ?thesis by simp
qed

lemma run_indexes_length:
  "siv_inv v \<Longrightarrow> run oprs v = Some v' \<Longrightarrow> length (m_indexes v) \<le> length (m_indexes v')"
proof (induction oprs arbitrary: v)
  case Nil
  then show ?case by simp
next
  case (Cons opr oprs)
  from Cons.prems(2) obtain v1 where v1: "exec opr v = Some v1" and r: "run oprs v1 = Some v'"
    by (auto split: option.splits)
  show ?case
    using exec_indexes_length [OF Cons.prems(1) v1] Cons.IH [OF siv_inv_exec [OF Cons.prems(1) v1] r]
    by linarith
qed

text \<open>An identifier handed out by an insertion has an entry in \<open>m_indexes\<close> from then on.\<close>

lemma returned_identifier_minted:
  assumes "siv_inv v" and "push_back af x v = Returned k v0" and "run oprs v0 = Some v'"
  shows "k < length (m_indexes v')"
proof -
  have "subscript v0 k = Some x" using push_back_subscript [OF assms(1,2), of k] by simp
  then have "k < length (m_indexes v0)" by (simp add: subscript_def split: if_splits)
  then show ?thesis
    using run_indexes_length [OF siv_inv_push_back_Returned [OF assms(1,2)] assms(3)] by linarith
qed

text \<open>
  C10. After every sequence of public operations, every identifier that has an entry in
  \<open>m_indexes\<close> (every identifier ever minted, live or erased) satisfies
  \<open>m_metadata[m_indexes[id]].rid == id\<close>, so \<open>index_of(id)\<close> and \<open>generation(id)\<close> read the slot
  that carries this identifier.
\<close>

theorem minted_identifier_owns_its_slot:
  assumes "run oprs new_vector = Some v" and "i < length (m_indexes v)"
  shows "m_indexes v ! i < length (m_metadata v) \<and>
         rid (m_metadata v ! (m_indexes v ! i)) = i \<and>
         index_of v i = Some (m_indexes v ! i) \<and>
         vector_generation v i = Some (generation (m_metadata v ! (m_indexes v ! i)))"
proof -
  have inv: "siv_inv v" using siv_inv_run [OF siv_inv_new_vector assms(1)] .
  show ?thesis
    using siv_inv_index [OF inv assms(2)] vector_generation_Some [OF inv assms(2)] assms(2)
    by (simp add: index_of_def)
qed

theorem minted_identifier_owns_its_slot_witness:
  "run [Push_back No_fault (10::nat), Push_back No_fault 20, Push_back No_fault 30, Erase 0, Clear] new_vector =
     Some (container [] [(2, 1), (1, 1), (0, 2)] [2, 1, 0]) \<and>
   (0::nat) < length (m_indexes (container ([]::nat list) [(2, 1), (1, 1), (0, 2)] [2, 1, 0])) \<and>
   rid (m_metadata (container ([]::nat list) [(2, 1), (1, 1), (0, 2)] [2, 1, 0]) !
        (m_indexes (container ([]::nat list) [(2, 1), (1, 1), (0, 2)] [2, 1, 0]) ! 0)) = 0 \<and>
   index_of (container ([]::nat list) [(2, 1), (1, 1), (0, 2)] [2, 1, 0]) 0 = Some 2 \<and>
   vector_generation (container ([]::nat list) [(2, 1), (1, 1), (0, 2)] [2, 1, 0]) 0 = Some 2"
proof -
  have r: "run [Push_back No_fault (10::nat), Push_back No_fault 20, Push_back No_fault 30, Erase 0, Clear] new_vector =
     Some (container [] [(2, 1), (1, 1), (0, 2)] [2, 1, 0])"
    by (simp add: eval_defs container_def)
  have i: "(0::nat) < length (m_indexes (container ([]::nat list) [(2, 1), (1, 1), (0, 2)] [2, 1, 0]))"
    by (simp add: container_def)
  show ?thesis
    using minted_identifier_owns_its_slot [OF r i] r i by (simp add: container_def)
qed

text \<open>
  C4. The scenario: \<open>A\<close>, \<open>B\<close>, \<open>C\<close> are inserted into an empty container and get the
  identifiers 0, 1, 2; a handle to 0 is made; after \<open>erase(0)\<close> the size is 2, identifier 2
  is at position 0, identifier 1 still at position 1, 0 is not contained and the handle is
  invalid; inserting \<open>D\<close> returns the identifier 0 again, the size is 3 and identifier 0 is
  at position 2.
\<close>

theorem scenario_insert_erase_recycle:
  "push_back No_fault a new_vector = Returned 0 (container [a] [(0, 0)] [0]) \<and>
   push_back No_fault b (container [a] [(0, 0)] [0]) = Returned 1 (container [a, b] [(0, 0), (1, 0)] [0, 1]) \<and>
   push_back No_fault c (container [a, b] [(0, 0), (1, 0)] [0, 1]) =
     Returned 2 (container [a, b, c] [(0, 0), (1, 0), (2, 0)] [0, 1, 2]) \<and>
   make_handle 0 (container [a, b, c] [(0, 0), (1, 0), (2, 0)] [0, 1, 2]) =
     Some \<lparr>m_id = 0, m_generation = 0, m_vector = True\<rparr> \<and>
   valid \<lparr>m_id = 0, m_generation = 0, m_vector = True\<rparr> (container [a, b, c] [(0, 0), (1, 0), (2, 0)] [0, 1, 2]) \<and>
   erase 0 (container [a, b, c] [(0, 0), (1, 0), (2, 0)] [0, 1, 2]) =
     Some (container [c, b] [(2, 0), (1, 0), (0, 1)] [2, 1, 0]) \<and>
   vector_size (container [c, b] [(2, 0), (1, 0), (0, 1)] [2, 1, 0]) = 2 \<and>
   index_of (container [c, b] [(2, 0), (1, 0), (0, 1)] [2, 1, 0]) 2 = Some 0 \<and>
   index_of (container [c, b] [(2, 0), (1, 0), (0, 1)] [2, 1, 0]) 1 = Some 1 \<and>
   contains (container [c, b] [(2, 0), (1, 0), (0, 1)] [2, 1, 0]) 0 = False \<and>
   valid \<lparr>m_id = 0, m_generation = 0, m_vector = True\<rparr> (container [c, b] [(2, 0), (1, 0), (0, 1)] [2, 1, 0]) = False \<and>
   push_back No_fault d (container [c, b] [(2, 0), (1, 0), (0, 1)] [2, 1, 0]) =
     Returned 0 (container [c, b, d] [(2, 0), (1, 0), (0, 2)] [2, 1, 0]) \<and>
   vector_size (container [c, b, d] [(2, 0), (1, 0), (0, 2)] [2, 1, 0]) = 3 \<and>
   index_of (container [c, b, d] [(2, 0), (1, 0), (0, 2)] [2, 1, 0]) 0 = Some 2"
  by (simp add: eval_defs eval_queries)

text \<open>
  C5. Erasing a live identifier whose element is not at the tail moves exactly one
  element, the former tail element, into the freed position; it changes the position
  reported by \<open>index_of\<close> for exactly one other identifier, the one of the former tail
  element, and leaves \<open>index_of\<close> of every further identifier unchanged.
\<close>

theorem erase_moves_only_the_tail:
  assumes "run oprs new_vector = Some v"
    and "contains v i"
    and "m_indexes v ! i \<noteq> length (m_data v) - 1"
    and "t = rid (m_metadata v ! (length (m_data v) - 1))"
  shows "\<exists>v'. erase i v = Some v' \<and>
           t \<noteq> i \<and> contains v t \<and>
           index_of v t = Some (length (m_data v) - 1) \<and>
           index_of v' t = index_of v i \<and>
           index_of v' t \<noteq> index_of v t \<and>
           index_of v' i = Some (length (m_data v) - 1) \<and>
           (\<forall>j. j \<noteq> i \<and> j \<noteq> t \<longrightarrow> index_of v' j = index_of v j) \<and>
           length (m_data v') = length (m_data v) - 1 \<and>
           m_data v' ! (m_indexes v ! i) = last (m_data v) \<and>
           (\<forall>p<length (m_data v'). p \<noteq> m_indexes v ! i \<longrightarrow> m_data v' ! p = m_data v ! p)"
proof -
  have inv: "siv_inv v" using siv_inv_run [OF siv_inv_new_vector assms(1)] .
  obtain v' where e: "erase i v = Some v'" using erase_defined [OF inv assms(2)] by blast
  note s = erase_setting [OF inv assms(2)]
  note len = erase_lengths [OF inv e]
  note ix = erase_indexes_nth [OF inv e]
  let ?l = "length (m_data v) - 1"
  have ti: "t \<noteq> i" using s(5,7) assms(3,4) by auto
  have tl: "t < length (m_indexes v)" and tp: "m_indexes v ! t = ?l"
    using s(6,7) assms(4) by simp_all
  have ct: "contains v t" using tl tp s(2) by (simp add: contains_def)
  have d: "m_indexes v ! i < ?l" using s(2) assms(3) by linarith
  have i1: "index_of v t = Some ?l" using tl tp by (simp add: index_of_def)
  have i2: "index_of v' t = index_of v i"
    using ix [OF tl] ti tl s(1) assms(4) by (simp add: index_of_def len)
  have i3: "index_of v' t \<noteq> index_of v t"
    using i1 i2 s(1) assms(3) by (simp add: index_of_def)
  have i4: "index_of v' i = Some ?l" using ix [OF s(1)] s(1) by (simp add: index_of_def len)
  have i5: "index_of v' j = index_of v j" if "j \<noteq> i \<and> j \<noteq> t" for j
  proof (cases "j < length (m_indexes v)")
    case True
    then show ?thesis using ix [OF True] that assms(4) by (simp add: index_of_def len)
  next
    case False
    then show ?thesis by (simp add: index_of_def len)
  qed
  have data: "m_data v' = butlast ((m_data v)[m_indexes v ! i := last (m_data v)])"
    using erase_fields(1) [OF inv e] .
  have d1: "m_data v' ! (m_indexes v ! i) = last (m_data v)"
    using d s(2) by (simp add: data nth_butlast)
  have d2: "m_data v' ! p = m_data v ! p" if "p < length (m_data v')" "p \<noteq> m_indexes v ! i" for p
    using that by (simp add: data nth_butlast)
  show ?thesis
    using e ti ct i1 i2 i3 i4 i5 len(3) d1 d2 by blast
qed

theorem erase_moves_only_the_tail_witness:
  "run [Push_back No_fault (10::nat), Push_back No_fault 20, Push_back No_fault 30] new_vector =
      Some (container [10::nat, 20, 30] [(0, 0), (1, 0), (2, 0)] [0, 1, 2]) \<and>
   contains (container [10::nat, 20, 30] [(0, 0), (1, 0), (2, 0)] [0, 1, 2]) 0 \<and>
   erase 0 (container [10::nat, 20, 30] [(0, 0), (1, 0), (2, 0)] [0, 1, 2]) =
      Some (container [30::nat, 20] [(2, 0), (1, 0), (0, 1)] [2, 1, 0]) \<and>
   index_of (container [30::nat, 20] [(2, 0), (1, 0), (0, 1)] [2, 1, 0]) 2 =
      index_of (container [10::nat, 20, 30] [(0, 0), (1, 0), (2, 0)] [0, 1, 2]) 0 \<and>
   index_of (container [30::nat, 20] [(2, 0), (1, 0), (0, 1)] [2, 1, 0]) 1 =
      index_of (container [10::nat, 20, 30] [(0, 0), (1, 0), (2, 0)] [0, 1, 2]) 1"
proof -
  let ?v = "container [10::nat, 20, 30] [(0, 0), (1, 0), (2, 0)] [0, 1, 2]"
  have r: "run [Push_back No_fault (10::nat), Push_back No_fault 20, Push_back No_fault 30] new_vector = Some ?v"
    by (simp add: eval_defs container_def)
  have c: "contains ?v 0" by (simp add: eval_queries)
  have n: "m_indexes ?v ! 0 \<noteq> length (m_data ?v) - 1" by (simp add: container_def)
  have t: "2 = rid (m_metadata ?v ! (length (m_data ?v) - 1))" by (simp add: container_def)
  have e: "erase 0 ?v = Some (container [30::nat, 20] [(2, 0), (1, 0), (0, 1)] [2, 1, 0])"
    by (simp add: eval_defs container_def)
  show ?thesis
    using erase_moves_only_the_tail [OF r c n t] r c e by (simp add: eval_queries)
qed

lemma take_swap_butlast:
  assumes "i < length xs"
  shows "take i (butlast (xs[i := last xs])) = take i xs"
proof -
  have "min i (length xs - 1) = i" using assms by linarith
  then have "take i (butlast (xs[i := last xs])) = take i (xs[i := last xs])"
    by (simp add: butlast_conv_take)
  then show ?thesis by simp
qed

lemma drop_swap_butlast:
  assumes "i < length xs"
  shows "mset (drop i (butlast (xs[i := last xs]))) = mset (drop (Suc i) xs)"
proof -
  let ?zs = "drop (Suc i) xs"
  have "drop i (xs[i := last xs]) = last xs # ?zs"
    using assms by (simp add: upd_conv_take_nth_drop)
  then have b: "drop i (butlast (xs[i := last xs])) = butlast (last xs # ?zs)"
    by (simp add: butlast_drop [symmetric])
  show ?thesis
  proof (cases "?zs = []")
    case True
    then show ?thesis using b by simp
  next
    case False
    then have "Suc i < length xs" by simp
    then have "last ?zs = last xs" by (simp add: last_drop)
    then have "mset ?zs = mset (butlast ?zs) + {#last xs#}"
      using False by (metis append_butlast_last_id mset.simps(1) mset.simps(2) mset_append add.commute union_mset_add_mset_left add.left_neutral)
    then show ?thesis using b False by simp
  qed
qed

lemma erase_at_data:
  assumes "siv_inv v" and "erase_at i v = Some v1"
  shows "m_data v1 = butlast ((m_data v)[i := last (m_data v)])"
  using erase_fields(1) [OF assms(1) erase_at_Some(2) [OF assms(2)]]
    erase_at_eq(3) [OF assms(1) erase_at_Some(1) [OF assms(2)]] by simp

lemma erase_if_from_mset:
  "siv_inv v \<Longrightarrow> erase_if_from P i v = Some v' \<Longrightarrow>
     mset (m_data v') = mset (take i (m_data v)) + filter_mset (\<lambda>x. \<not> P x) (mset (drop i (m_data v)))"
proof (induction P i v rule: erase_if_from.induct)
  case (1 P i v)
  show ?case
  proof (cases "i < length (m_data v)")
    case False
    then have "v' = v" using "1.prems"(2) by (simp add: erase_if_from.simps [of P i v])
    then show ?thesis using False by simp
  next
    case True
    have split: "drop i (m_data v) = m_data v ! i # drop (Suc i) (m_data v)"
      using True by (simp add: Cons_nth_drop_Suc)
    show ?thesis
    proof (cases "P (m_data v ! i)")
      case False
      then have "erase_if_from P (Suc i) v = Some v'"
        using "1.prems"(2) True by (simp add: erase_if_from.simps [of P i v])
      from "1.IH"(2) [OF True False "1.prems"(1) this] show ?thesis
        using True False split by (simp add: take_Suc_conv_app_nth)
    next
      case P: True
      obtain v1 where v1: "erase_at i v = Some v1"
        using erase_at_defined [OF "1.prems"(1) True] by blast
      have inv1: "siv_inv v1" using siv_inv_erase_at [OF "1.prems"(1) v1] .
      have rest: "erase_if_from P i v1 = Some v'"
        using "1.prems"(2) True P v1 by (simp add: erase_if_from.simps [of P i v])
      note d = erase_at_data [OF "1.prems"(1) v1]
      have "mset (m_data v') =
          mset (take i (m_data v)) + filter_mset (\<lambda>x. \<not> P x) (mset (drop (Suc i) (m_data v)))"
        using "1.IH"(1) [OF True P v1 inv1 rest]
        unfolding d take_swap_butlast [OF True] drop_swap_butlast [OF True] .
      then show ?thesis using P split by simp
    qed
  qed
qed

text \<open>
  C8. \<open>erase_if(p)\<close> always completes, removes exactly the elements that satisfy \<open>p\<close> and
  keeps exactly the others, each once: the stored values are the former ones without
  those satisfying \<open>p\<close> (as a multiset), every identifier whose element satisfies \<open>p\<close> is
  gone and every other identifier still looks up its element; the free function
  returns the number of removed elements.
\<close>

theorem erase_if_removes_exactly_the_matching:
  assumes "run oprs new_vector = Some v"
  shows "\<exists>v'. erase_if P v = Some v' \<and>
           siv_erase_if P v = Some (length (filter P (m_data v)), v') \<and>
           mset (m_data v') = filter_mset (\<lambda>x. \<not> P x) (mset (m_data v)) \<and>
           (\<forall>j. subscript v' j =
              (case subscript v j of None \<Rightarrow> None | Some x \<Rightarrow> if P x then None else Some x))"
proof -
  have inv: "siv_inv v" using siv_inv_run [OF siv_inv_new_vector assms] .
  obtain v' where e: "erase_if_from P 0 v = Some v'"
    using erase_if_from_defined [OF inv, of P 0] by blast
  have m: "mset (m_data v') = filter_mset (\<lambda>x. \<not> P x) (mset (m_data v))"
    using erase_if_from_mset [OF inv e] by simp
  then have "size (mset (m_data v')) = size (filter_mset (\<lambda>x. \<not> P x) (mset (m_data v)))"
    by simp
  then have "length (m_data v') = length (filter (\<lambda>x. \<not> P x) (m_data v))"
    by (simp flip: mset_filter)
  then have n: "length (m_data v) - length (m_data v') = length (filter P (m_data v))"
    using sum_length_filter_compl [of P "m_data v"] by linarith
  have s: "subscript v' j = (case subscript v j of None \<Rightarrow> None | Some x \<Rightarrow> if P x then None else Some x)"
    for j
    using erase_if_from_effect [OF inv e, of j]
    by (auto simp: doomed_def subscript_def contains_def)
  show ?thesis
    using e m n s by (simp add: erase_if_def siv_erase_if_def vector_size_def)
qed

theorem erase_if_removes_exactly_the_matching_witness:
  "run [Push_back No_fault (5::nat), Push_back No_fault 1, Push_back No_fault 5] new_vector =
      Some (container [5::nat, 1, 5] [(0, 0), (1, 0), (2, 0)] [0, 1, 2]) \<and>
   erase_if (\<lambda>x. x = 5) (container [5::nat, 1, 5] [(0, 0), (1, 0), (2, 0)] [0, 1, 2]) =
      Some (container [1::nat] [(1, 0), (2, 1), (0, 1)] [2, 0, 1]) \<and>
   siv_erase_if (\<lambda>x. x = 5) (container [5::nat, 1, 5] [(0, 0), (1, 0), (2, 0)] [0, 1, 2]) =
      Some (2, container [1::nat] [(1, 0), (2, 1), (0, 1)] [2, 0, 1]) \<and>
   subscript (container [1::nat] [(1, 0), (2, 1), (0, 1)] [2, 0, 1]) 1 = Some 1 \<and>
   subscript (container [1::nat] [(1, 0), (2, 1), (0, 1)] [2, 0, 1]) 2 = None"
proof -
  let ?v = "container [5::nat, 1, 5] [(0, 0), (1, 0), (2, 0)] [0, 1, 2]"
  have r: "run [Push_back No_fault (5::nat), Push_back No_fault 1, Push_back No_fault 5] new_vector = Some ?v"
    by (simp add: eval_defs container_def)
  have e: "erase_if (\<lambda>x. x = 5) ?v = Some (container [1::nat] [(1, 0), (2, 1), (0, 1)] [2, 0, 1])"
    by (simp add: erase_if_def erase_if_from.simps eval_defs container_def)
  show ?thesis
    using erase_if_removes_exactly_the_matching [OF r, of "\<lambda>x. x = 5"] r e
    by (simp add: eval_queries)
qed

lemma recycled_next_id:
  assumes "recycled v v'" and "m_data v' = m_data v"
  shows "next_id v' = next_id v"
  using assms by (simp add: recycled_def next_id_def)

lemma minted_next_id:
  assumes "minted v v'" and "m_data v' = m_data v"
  shows "next_id v' = next_id v"
  using assms by (auto simp: minted_def next_id_def nth_append)

lemma push_back_Threw_index_of:
  assumes "siv_inv v" and "push_back af x v = Threw e v'" and "j < length (m_indexes v)"
  shows "index_of v' j = index_of v j"
proof -
  from push_back_Threw(3) [OF assms(1,2)] consider "v' = v" | "recycled v v'" | "minted v v'" by blast
  then show ?thesis
  proof cases
    case 1
    then show ?thesis by simp
  next
    case 2
    then show ?thesis by (simp add: recycled_def index_of_def)
  next
    case 3
    then show ?thesis using assms(3) by (simp add: minted_def index_of_def nth_append)
  qed
qed

text \<open>
  C7, as the code has it. An insertion that fails with \<open>bad_alloc\<close> in one of the two
  \<open>reserve\<close> calls leaves the container exactly as it was. One that fails while \<open>m_data\<close>
  grows has already updated the slot and indirection tables (the hole at position
  \<open>m_data.size()\<close> has its generation incremented, or a new hole has been appended to both
  tables), but the three tables satisfy the structural invariant, \<open>m_data\<close> is unchanged,
  every identifier is contained, looked up and positioned as before, and \<open>next_id\<close> is
  unchanged.
\<close>

theorem failed_insertion_keeps_container_usable:
  assumes "run oprs new_vector = Some v" and "push_back af x v = Threw e v'"
  shows "e = bad_alloc \<and> af \<noteq> No_fault \<and>
         (af = Indexes_reserve_fails \<or> af = Metadata_reserve_fails \<longrightarrow> v' = v) \<and>
         (af = Data_growth_fails \<longrightarrow> recycled v v' \<or> minted v v') \<and>
         siv_inv v' \<and> m_data v' = m_data v \<and> next_id v' = next_id v \<and>
         (\<forall>j. contains v' j = contains v j \<and> subscript v' j = subscript v j) \<and>
         (\<forall>j<length (m_indexes v). index_of v' j = index_of v j)"
proof -
  have inv: "siv_inv v" using siv_inv_run [OF siv_inv_new_vector assms(1)] .
  note t = push_back_Threw [OF inv assms(2)]
  have same: "v' = v" if "af = Indexes_reserve_fails \<or> af = Metadata_reserve_fails"
    using assms(2) that unfolding push_back_eq [OF inv] by (auto split: if_splits)
  have changed: "recycled v v' \<or> minted v v'" if "af = Data_growth_fails"
    using assms(2) that siv_inv_lengths [OF inv] unfolding push_back_eq [OF inv]
    by (auto simp: recycled_def minted_def split: if_splits)
  have n: "next_id v' = next_id v"
    using t(3) recycled_next_id [OF _ t(2)] minted_next_id [OF _ t(2)] by auto
  have s: "subscript v' j = subscript v j" for j
    using push_back_Threw_subscript [OF inv assms(2)] .
  have c: "contains v' j = contains v j" for j
    using s [of j] subscript_None_iff [of v' j] subscript_None_iff [of v j] by auto
  show ?thesis
    using t(1,2,4) same changed siv_inv_push_back_Threw [OF inv assms(2)] n s c
      push_back_Threw_index_of [OF inv assms(2)]
    by blast
qed

theorem failed_insertion_keeps_container_usable_witness:
  "run [Push_back No_fault (7::nat), Erase 0] new_vector = Some (container [] [(0, 1)] [0]) \<and>
   push_back Data_growth_fails 8 (container ([]::nat list) [(0, 1)] [0]) =
      Threw bad_alloc (container [] [(0, 2)] [0]) \<and>
   siv_inv (container ([]::nat list) [(0, 2)] [0]) \<and>
   next_id (container ([]::nat list) [(0, 2)] [0]) = next_id (container ([]::nat list) [(0, 1)] [0]) \<and>
   recycled (container ([]::nat list) [(0, 1)] [0]) (container ([]::nat list) [(0, 2)] [0])"
proof -
  have r: "run [Push_back No_fault (7::nat), Erase 0] new_vector = Some (container [] [(0, 1)] [0])"
    by (simp add: eval_defs container_def)
  have p: "push_back Data_growth_fails 8 (container ([]::nat list) [(0, 1)] [0]) =
      Threw bad_alloc (container [] [(0, 2)] [0])"
    by (simp add: eval_defs container_def)
  have m: "\<not> minted (container ([]::nat list) [(0, 1)] [0]) (container ([]::nat list) [(0, 2)] [0])"
    by (simp add: minted_def container_def)
  show ?thesis
    using failed_insertion_keeps_container_usable [OF r p] r p m by simp
qed

text \<open>
  C7 as stated fails when the growth of \<open>m_data\<close> is what fails: on an empty container the
  slot and indirection tables have gained an entry, and on a container with a hole the
  generation of the hole has been incremented.
\<close>

theorem failed_insertion_counterexample:
  "push_back Data_growth_fails (7::nat) new_vector = Threw bad_alloc (container [] [(0, 0)] [0]) \<and>
   m_metadata (container ([]::nat list) [(0, 0)] [0]) \<noteq> m_metadata (new_vector :: nat vector) \<and>
   m_indexes (container ([]::nat list) [(0, 0)] [0]) \<noteq> m_indexes (new_vector :: nat vector) \<and>
   push_back Data_growth_fails (8::nat) (container [] [(0, 1)] [0]) =
      Threw bad_alloc (container [] [(0, 2)] [0]) \<and>
   m_metadata (container ([]::nat list) [(0, 2)] [0]) \<noteq> m_metadata (container ([]::nat list) [(0, 1)] [0])"
  by (simp add: eval_defs container_def)

lemma word64_le_incr:
  fixes g :: "64 word"
  assumes "g \<noteq> - 1"
  shows "g \<le> g + 1"
proof -
  have "\<not> g + 1 \<le> g" using assms by (simp add: inc_less_eq_self_iff_eq)
  then show ?thesis by simp
qed

lemma push_back_Returned_generation:
  assumes "siv_inv v" and "push_back af x v = Returned k v'" and "i < length (m_indexes v)"
  shows "vector_generation v' i =
     (if i = k then map_option (\<lambda>g. g + 1) (vector_generation v i) else vector_generation v i)"
proof -
  note r = push_back_Returned [OF assms(1,2)]
  from r(3) show ?thesis
  proof
    assume "recycled v v'"
    then show ?thesis using recycled_generation [OF assms(1) _ assms(3)] r(2) by simp
  next
    assume m: "minted v v'"
    then have "k = length (m_indexes v)" using r(2) by (simp add: minted_def next_id_def)
    then show ?thesis using minted_generation(1) [OF assms(1) m assms(3)] assms(3) by simp
  qed
qed

lemma push_back_Returned_fresh:
  assumes "siv_inv v" and "push_back af x v = Returned k v'" and "\<not> k < length (m_indexes v)"
  shows "vector_generation v' k = Some 0"
proof -
  note r = push_back_Returned [OF assms(1,2)]
  from r(3) show ?thesis
  proof
    assume rc: "recycled v v'"
    then have "length (m_data v) < length (m_metadata v)" by (simp add: recycled_def)
    then have "k < length (m_indexes v)"
      using siv_inv_rid [OF assms(1), of "length (m_data v)"] r(2) by (simp add: next_id_def)
    then show ?thesis using assms(3) by simp
  next
    assume m: "minted v v'"
    then have "k = length (m_indexes v)" using r(2) by (simp add: minted_def next_id_def)
    then show ?thesis using minted_generation(2) [OF assms(1) m] by simp
  qed
qed

lemma push_back_Threw_generation:
  assumes "siv_inv v" and "push_back af x v = Threw e v'" and "i < length (m_indexes v)"
  shows "vector_generation v' i =
     (if i = next_id v \<and> length (m_data v) < length (m_metadata v) \<and> af = Data_growth_fails
      then map_option (\<lambda>g. g + 1) (vector_generation v i) else vector_generation v i)"
proof (cases "length (m_data v) < length (m_metadata v) \<and> af = Data_growth_fails")
  case True
  then have "recycled v v'"
    using assms(2) unfolding push_back_eq [OF assms(1)] by (auto simp: recycled_def)
  then show ?thesis using recycled_generation [OF assms(1) _ assms(3)] True by simp
next
  case False
  then have "v' = v \<or> minted v v'"
    using assms(2) siv_inv_lengths [OF assms(1)] unfolding push_back_eq [OF assms(1)]
    by (auto simp: minted_def split: if_splits)
  then show ?thesis using minted_generation(1) [OF assms(1) _ assms(3)] False by auto
qed

text \<open>
  C6, as the code has it. The generation counter belongs to the slot entry that carries an
  identifier, and \<open>erase\<close> swaps that entry with the tail's, so the counter is followed
  through the identifier (\<open>generation(id)\<close>), not through a table position. For every
  minted identifier, one public operation leaves it unchanged or increments it once,
  modulo \<open>2^64\<close>: it does not decrease unless it wraps from \<open>2^64 - 1\<close> to 0. \<open>erase(id)\<close>
  increments the counter of \<open>id\<close> once and no other; an insertion that returns \<open>id\<close> again
  increments it once more and no other; a newly minted identifier starts at 0; \<open>clear\<close>
  increments every counter once; an insertion that throws while \<open>m_data\<close> grows has
  incremented the counter of the hole it was recycling, and no other.
\<close>

theorem generation_follows_the_identifier:
  assumes "run oprs new_vector = Some v" and "i < length (m_indexes v)"
  shows "(\<exists>g. vector_generation v i = Some g) \<and>
         (\<forall>opr v'. exec opr v = Some v' \<longrightarrow>
            vector_generation v' i = vector_generation v i \<or>
            vector_generation v' i = map_option (\<lambda>g. g + 1) (vector_generation v i)) \<and>
         (\<forall>opr v' g g'. exec opr v = Some v' \<and> vector_generation v i = Some g \<and>
            vector_generation v' i = Some g' \<and> g \<noteq> - 1 \<longrightarrow> g \<le> g') \<and>
         (\<forall>j v'. erase j v = Some v' \<longrightarrow>
            vector_generation v' i =
              (if i = j then map_option (\<lambda>g. g + 1) (vector_generation v i) else vector_generation v i)) \<and>
         (\<forall>af x k v'. push_back af x v = Returned k v' \<longrightarrow>
            vector_generation v' i =
              (if i = k then map_option (\<lambda>g. g + 1) (vector_generation v i) else vector_generation v i)) \<and>
         (\<forall>af x k v'. push_back af x v = Returned k v' \<and> \<not> k < length (m_indexes v) \<longrightarrow>
            vector_generation v' k = Some 0) \<and>
         (\<forall>af x e v'. push_back af x v = Threw e v' \<longrightarrow>
            vector_generation v' i =
              (if i = next_id v \<and> length (m_data v) < length (m_metadata v) \<and> af = Data_growth_fails
               then map_option (\<lambda>g. g + 1) (vector_generation v i) else vector_generation v i)) \<and>
         vector_generation (clear v) i = map_option (\<lambda>g. g + 1) (vector_generation v i)"
proof -
  have inv: "siv_inv v" using siv_inv_run [OF siv_inv_new_vector assms(1)] .
  have a: "\<exists>g. vector_generation v i = Some g"
    using vector_generation_Some [OF inv assms(2)] by simp
  have b: "vector_generation v' i = vector_generation v i \<or>
      vector_generation v' i = map_option (\<lambda>g. g + 1) (vector_generation v i)"
    if "exec opr v = Some v'" for opr v'
    using exec_generation_step [OF inv that assms(2)] by simp
  have c: "g \<le> g'"
    if "exec opr v = Some v' \<and> vector_generation v i = Some g \<and> vector_generation v' i = Some g' \<and> g \<noteq> - 1"
    for opr v' g g'
  proof -
    from b [of opr v'] that have "g' = g \<or> g' = g + 1" by auto
    then show ?thesis using that word64_le_incr [of g] by auto
  qed
  have d: "vector_generation v' i =
      (if i = j then map_option (\<lambda>g. g + 1) (vector_generation v i) else vector_generation v i)"
    if "erase j v = Some v'" for j v'
    using erase_vector_generation [OF inv that assms(2)] by simp
  have e: "vector_generation v' i =
      (if i = k then map_option (\<lambda>g. g + 1) (vector_generation v i) else vector_generation v i)"
    if "push_back af x v = Returned k v'" for af x k v'
    using push_back_Returned_generation [OF inv that assms(2)] .
  have f: "vector_generation v' k = Some 0"
    if "push_back af x v = Returned k v' \<and> \<not> k < length (m_indexes v)" for af x k v'
    using push_back_Returned_fresh [OF inv] that by blast
  have t: "vector_generation v' i =
      (if i = next_id v \<and> length (m_data v) < length (m_metadata v) \<and> af = Data_growth_fails
       then map_option (\<lambda>g. g + 1) (vector_generation v i) else vector_generation v i)"
    if "push_back af x v = Threw e v'" for af x e v'
    using push_back_Threw_generation [OF inv that assms(2)] .
  have g: "vector_generation (clear v) i = map_option (\<lambda>g. g + 1) (vector_generation v i)"
    using clear_vector_generation [OF inv] .
  show ?thesis
    using a b c d e f t g by blast
qed

theorem generation_follows_the_identifier_witness:
  "run [Push_back No_fault (1::nat), Erase 0, Push_back No_fault 2, Push_back No_fault 3] new_vector =
      Some (container [2::nat, 3] [(0, 2), (1, 0)] [0, 1]) \<and>
   erase 0 (container [2::nat, 3] [(0, 2), (1, 0)] [0, 1]) = Some (container [3::nat] [(1, 0), (0, 3)] [1, 0]) \<and>
   vector_generation (container [2::nat, 3] [(0, 2), (1, 0)] [0, 1]) 0 = Some 2 \<and>
   vector_generation (container [3::nat] [(1, 0), (0, 3)] [1, 0]) 0 = Some 3 \<and>
   vector_generation (clear (container [2::nat, 3] [(0, 2), (1, 0)] [0, 1])) 0 = Some 3"
proof -
  let ?v = "container [2::nat, 3] [(0, 2), (1, 0)] [0, 1]"
  have r: "run [Push_back No_fault (1::nat), Erase 0, Push_back No_fault 2, Push_back No_fault 3] new_vector = Some ?v"
    by (simp add: eval_defs container_def)
  have i: "0 < length (m_indexes ?v)" by (simp add: container_def)
  have e: "erase 0 ?v = Some (container [3::nat] [(1, 0), (0, 3)] [1, 0])"
    by (simp add: eval_defs container_def)
  have g: "vector_generation ?v 0 = Some 2" by (simp add: eval_queries)
  show ?thesis
    using generation_follows_the_identifier [OF r i] r e g by simp
qed

text \<open>
  C6 as stated, about table positions, fails: in the reachable container below position 0
  holds generation 2, and after \<open>erase(0)\<close> it holds the former tail's entry with
  generation 0.
\<close>

theorem slot_generation_counterexample:
  "run [Push_back No_fault (1::nat), Erase 0, Push_back No_fault 2, Push_back No_fault 3] new_vector =
      Some (container [2::nat, 3] [(0, 2), (1, 0)] [0, 1]) \<and>
   erase 0 (container [2::nat, 3] [(0, 2), (1, 0)] [0, 1]) = Some (container [3::nat] [(1, 0), (0, 3)] [1, 0]) \<and>
   generation (m_metadata (container [2::nat, 3] [(0, 2), (1, 0)] [0, 1]) ! 0) = 2 \<and>
   generation (m_metadata (container [3::nat] [(1, 0), (0, 3)] [1, 0]) ! 0) = 0 \<and>
   generation (m_metadata (container [3::nat] [(1, 0), (0, 3)] [1, 0]) ! 0) <
     generation (m_metadata (container [2::nat, 3] [(0, 2), (1, 0)] [0, 1]) ! 0)"
  by (simp add: eval_defs container_def)

lemma erase_own_generation:
  assumes "siv_inv v" and "erase i v = Some v'" and "vector_generation v i = Some g"
  shows "vector_generation v' i = Some (g + 1)"
  using erase_vector_generation [OF assms(1,2) erase_setting(1) [OF assms(1) erase_Some_contains [OF assms(2)]]]
    assms(3) by simp

text \<open>
  C3. A handle \<open>h\<close> made by \<open>make_handle\<close> for a live identifier is valid, \<open>erase(id)\<close>
  succeeds and \<open>h\<close> is invalid after it. Whenever a later insertion returns the same
  identifier for a new element, \<open>h\<close> is still invalid before and after that insertion, a
  handle made for the new element is valid, and the two handles carry different
  generations. The later insertion may follow any history of public operations shorter
  than \<open>2^64 - 2\<close> calls: the generation is a \<open>uint64_t\<close>, and no execution performs the
  \<open>2^64\<close> increments of one slot after which it would repeat.
\<close>

theorem stale_handle_is_detected:
  assumes "run oprs0 new_vector = Some v"
    and "make_handle i v = Some h"
  shows "valid h v \<and>
         (\<exists>v1. erase i v = Some v1 \<and> \<not> valid h v1 \<and>
            (\<forall>oprs v2 af x v3 h'.
               run oprs v1 = Some v2 \<and> push_back af x v2 = Returned i v3 \<and>
               make_handle i v3 = Some h' \<and> length oprs + 2 < 2 ^ 64 \<longrightarrow>
               \<not> valid h v2 \<and> \<not> valid h v3 \<and> valid h' v3 \<and> m_generation h' \<noteq> m_generation h))"
proof -
  let ?g = "m_generation h"
  have inv: "siv_inv v" using siv_inv_run [OF siv_inv_new_vector assms(1)] .
  note h = make_handle_Some [OF assms(2)]
  obtain v1 where e: "erase i v = Some v1" using erase_defined [OF inv h(1)] by blast
  have inv1: "siv_inv v1" using siv_inv_erase [OF inv e] .
  have i: "i < length (m_indexes v)" using h(1) by (simp add: contains_def)
  have i1: "i < length (m_indexes v1)" using i erase_lengths(2) [OF inv e] by simp
  have g1: "vector_generation v1 i = Some (?g + 1)"
    using erase_own_generation [OF inv e h(4)] .
  have d1: "?g + of_nat (Suc 0) \<noteq> ?g" by (rule word64_add_neq) simp_all
  have a: "valid h v" using h by (simp add: valid_iff_generation)
  have b: "\<not> valid h v1" using g1 d1 h(2) by (simp add: valid_iff_generation)
  have c: "\<not> valid h v2 \<and> \<not> valid h v3 \<and> valid h' v3 \<and> m_generation h' \<noteq> ?g"
    if later: "run oprs v1 = Some v2 \<and> push_back af x v2 = Returned i v3 \<and>
               make_handle i v3 = Some h' \<and> length oprs + 2 < 2 ^ 64"
    for oprs v2 af x v3 h'
  proof -
    from later have r: "run oprs v1 = Some v2" and p: "push_back af x v2 = Returned i v3"
      and mk: "make_handle i v3 = Some h'" and bound: "length oprs + 2 < 2 ^ 64"
      by simp_all
    have inv2: "siv_inv v2" using siv_inv_run [OF inv1 r] .
    note h' = make_handle_Some [OF mk]
    from run_generation [OF inv1 r i1] obtain n where n: "n \<le> length oprs"
      and g2: "vector_generation v2 i = Some (?g + 1 + of_nat n)"
      and i2: "i < length (m_indexes v2)"
      using g1 i1 by auto
    have ex: "exec (Push_back af x) v2 = Some v3" using p by simp
    from exec_generation_step [OF inv2 ex i2]
    have "vector_generation v3 i = Some (?g + 1 + of_nat n) \<or>
          vector_generation v3 i = Some (?g + 1 + of_nat n + 1)"
      using g2 by simp
    moreover have "?g + 1 + of_nat n = ?g + of_nat (Suc n)" by simp
    moreover have "?g + 1 + of_nat n + 1 = ?g + of_nat (Suc (Suc n))" by simp
    ultimately have "vector_generation v3 i = Some (?g + of_nat (Suc n)) \<or>
          vector_generation v3 i = Some (?g + of_nat (Suc (Suc n)))"
      by (simp only:)
    then obtain m where m: "m = Suc n \<or> m = Suc (Suc n)"
      and g3: "vector_generation v3 i = Some (?g + of_nat m)"
      by blast
    have d2: "?g + of_nat (Suc n) \<noteq> ?g" using n bound by (intro word64_add_neq) simp_all
    have d3: "?g + of_nat m \<noteq> ?g" using m n bound by (intro word64_add_neq) auto
    have "\<not> valid h v2" using g2 d2 h(2) by (simp add: valid_iff_generation add.assoc)
    moreover have "\<not> valid h v3" using g3 d3 h(2) by (simp add: valid_iff_generation)
    moreover have "valid h' v3" using h' by (simp add: valid_iff_generation)
    moreover have "m_generation h' \<noteq> ?g" using h'(4) g3 d3 by simp
    ultimately show ?thesis by blast
  qed
  show ?thesis using a e b c by blast
qed

theorem stale_handle_is_detected_witness:
  "run [Push_back No_fault (10::nat), Push_back No_fault 20] new_vector =
      Some (container [10::nat, 20] [(0, 0), (1, 0)] [0, 1]) \<and>
   make_handle 0 (container [10::nat, 20] [(0, 0), (1, 0)] [0, 1]) =
      Some \<lparr>m_id = 0, m_generation = 0, m_vector = True\<rparr> \<and>
   erase 0 (container [10::nat, 20] [(0, 0), (1, 0)] [0, 1]) = Some (container [20::nat] [(1, 0), (0, 1)] [1, 0]) \<and>
   valid \<lparr>m_id = 0, m_generation = 0, m_vector = True\<rparr> (container [20::nat] [(1, 0), (0, 1)] [1, 0]) = False \<and>
   run [Push_back No_fault 30, Clear, Push_back No_fault 40] (container [20::nat] [(1, 0), (0, 1)] [1, 0]) =
      Some (container [40::nat] [(1, 2), (0, 3)] [1, 0]) \<and>
   push_back No_fault 50 (container [40::nat] [(1, 2), (0, 3)] [1, 0]) =
      Returned 0 (container [40::nat, 50] [(1, 2), (0, 4)] [1, 0]) \<and>
   make_handle 0 (container [40::nat, 50] [(1, 2), (0, 4)] [1, 0]) =
      Some \<lparr>m_id = 0, m_generation = 4, m_vector = True\<rparr> \<and>
   valid \<lparr>m_id = 0, m_generation = 4, m_vector = True\<rparr> (container [40::nat, 50] [(1, 2), (0, 4)] [1, 0]) \<and>
   valid \<lparr>m_id = 0, m_generation = 0, m_vector = True\<rparr> (container [40::nat, 50] [(1, 2), (0, 4)] [1, 0]) = False"
proof -
  let ?v = "container [10::nat, 20] [(0, 0), (1, 0)] [0, 1]"
  let ?v1 = "container [20::nat] [(1, 0), (0, 1)] [1, 0]"
  let ?v2 = "container [40::nat] [(1, 2), (0, 3)] [1, 0]"
  let ?v3 = "container [40::nat, 50] [(1, 2), (0, 4)] [1, 0]"
  let ?h = "\<lparr>m_id = 0, m_generation = 0, m_vector = True\<rparr>"
  let ?h' = "\<lparr>m_id = 0, m_generation = 4, m_vector = True\<rparr>"
  let ?oprs = "[Push_back No_fault (30::nat), Clear, Push_back No_fault 40]"
  have r: "run [Push_back No_fault (10::nat), Push_back No_fault 20] new_vector = Some ?v"
    by (simp add: eval_defs container_def)
  have h: "make_handle 0 ?v = Some ?h" by (simp add: eval_queries)
  have e: "erase 0 ?v = Some ?v1" by (simp add: eval_defs container_def)
  have o: "run ?oprs ?v1 = Some ?v2" by (simp add: eval_defs container_def)
  have p: "push_back No_fault 50 ?v2 = Returned 0 ?v3" by (simp add: eval_defs container_def)
  have h': "make_handle 0 ?v3 = Some ?h'" by (simp add: eval_queries)
  have b: "length ?oprs + 2 < 2 ^ 64" by simp
  from stale_handle_is_detected [OF r h] obtain v1 where e1: "erase 0 ?v = Some v1"
    and n1: "\<not> valid ?h v1"
    and later: "\<forall>oprs v2 af x v3 h'.
               run oprs v1 = Some v2 \<and> push_back af x v2 = Returned 0 v3 \<and>
               make_handle 0 v3 = Some h' \<and> length oprs + 2 < 2 ^ 64 \<longrightarrow>
               \<not> valid ?h v2 \<and> \<not> valid ?h v3 \<and> valid h' v3 \<and> m_generation h' \<noteq> m_generation ?h"
    by blast
  have v1: "v1 = ?v1" using e e1 by simp
  have "run ?oprs v1 = Some ?v2 \<and> push_back No_fault 50 ?v2 = Returned 0 ?v3 \<and>
        make_handle 0 ?v3 = Some ?h' \<and> length ?oprs + 2 < 2 ^ 64"
    using o p h' b unfolding v1 by (intro conjI)
  with later have "\<not> valid ?h ?v2 \<and> \<not> valid ?h ?v3 \<and> valid ?h' ?v3 \<and> m_generation ?h' \<noteq> m_generation ?h"
    by blast
  then show ?thesis using r h e o p h' n1 v1 by simp
qed

text \<open>
  C9. For every container state, after \<open>clear()\<close> the size is 0, no identifier is
  contained, the generation of every slot has been incremented exactly once, the slot
  table keeps its length and the indirection table is unchanged; every handle that was
  valid before the call is invalid, and so is every handle that \<open>make_handle\<close> or
  \<open>make_handle_at\<close> issued in an earlier state. The handle may have been issued any history
  of public operations shorter than \<open>2^64 - 1\<close> calls before the \<open>clear\<close>: the generation is
  a \<open>uint64_t\<close>, and no execution performs the \<open>2^64\<close> increments of one slot after which it
  would repeat.
\<close>

theorem clear_invalidates_everything:
  assumes "run oprs0 new_vector = Some v"
  shows "vector_size (clear v) = 0 \<and>
         (\<forall>j. \<not> contains (clear v) j) \<and>
         (\<forall>h. valid h v \<longrightarrow> \<not> valid h (clear v)) \<and>
         (\<forall>oprs1 u i idx h oprs.
            run oprs1 new_vector = Some u \<and>
            (make_handle i u = Some h \<or> make_handle_at idx u = Some h) \<and>
            run oprs u = Some v \<and> length oprs + 1 < 2 ^ 64 \<longrightarrow>
            \<not> valid h (clear v)) \<and>
         length (m_metadata (clear v)) = length (m_metadata v) \<and>
         (\<forall>p<length (m_metadata v).
            generation (m_metadata (clear v) ! p) = generation (m_metadata v ! p) + 1 \<and>
            rid (m_metadata (clear v) ! p) = rid (m_metadata v ! p)) \<and>
         length (m_indexes (clear v)) = length (m_indexes v) \<and>
         m_indexes (clear v) = m_indexes v"
proof -
  have inv: "siv_inv v" using siv_inv_run [OF siv_inv_new_vector assms(1)] .
  have a: "\<not> valid h (clear v)"
    if issued: "run oprs1 new_vector = Some u \<and>
            (make_handle i u = Some h \<or> make_handle_at idx u = Some h) \<and>
            run oprs u = Some v \<and> length oprs + 1 < 2 ^ 64"
    for oprs1 u i idx h oprs
  proof -
    from issued have ru: "run oprs1 new_vector = Some u" and r: "run oprs u = Some v"
      and bound: "length oprs + 1 < 2 ^ 64"
      and mh: "make_handle i u = Some h \<or> make_handle_at idx u = Some h"
      by simp_all
    have invu: "siv_inv u" using siv_inv_run [OF siv_inv_new_vector ru] .
    obtain k where mk: "make_handle k u = Some h"
      using mh make_handle_at_eq [OF invu] by blast
    note h = make_handle_Some [OF mk]
    let ?g = "m_generation h"
    have k: "k < length (m_indexes u)" using h(1) by (simp add: contains_def)
    from run_generation [OF invu r k] obtain n where n: "n \<le> length oprs"
      and g: "vector_generation v k = Some (?g + of_nat n)"
      using h(4) by auto
    have "vector_generation (clear v) k = Some (?g + of_nat n + 1)"
      using clear_vector_generation [OF inv, of k] g by simp
    moreover have "?g + of_nat n + 1 = ?g + of_nat (Suc n)" by simp
    ultimately have gc: "vector_generation (clear v) k = Some (?g + of_nat (Suc n))" by (simp only:)
    have "?g + of_nat (Suc n) \<noteq> ?g" using n bound by (intro word64_add_neq) simp_all
    then show ?thesis using gc h(2) by (simp add: valid_iff_generation)
  qed
  have b: "\<not> valid h (clear v)" if "valid h v" for h
  proof -
    have "vector_generation v (m_id h) = Some (m_generation h)"
      using that by (simp add: valid_iff_generation)
    then have "vector_generation (clear v) (m_id h) = Some (m_generation h + 1)"
      using clear_vector_generation [OF inv, of "m_id h"] by simp
    then show ?thesis by (simp add: valid_iff_generation)
  qed
  have c: "generation (m_metadata (clear v) ! p) = generation (m_metadata v ! p) + 1 \<and>
           rid (m_metadata (clear v) ! p) = rid (m_metadata v ! p)"
    if "p < length (m_metadata v)" for p
    using that by (simp add: clear_def)
  have d: "vector_size (clear v) = 0" "length (m_metadata (clear v)) = length (m_metadata v)"
    "m_indexes (clear v) = m_indexes v"
    by (simp_all add: clear_def vector_size_def)
  show ?thesis
    using a b c d clear_contains [of v] by (simp only:) blast
qed

theorem clear_invalidates_everything_witness:
  "run [Push_back No_fault (10::nat), Push_back No_fault 20] new_vector =
      Some (container [10::nat, 20] [(0, 0), (1, 0)] [0, 1]) \<and>
   make_handle 1 (container [10::nat, 20] [(0, 0), (1, 0)] [0, 1]) =
      Some \<lparr>m_id = 1, m_generation = 0, m_vector = True\<rparr> \<and>
   make_handle 0 (container [10::nat, 20] [(0, 0), (1, 0)] [0, 1]) =
      Some \<lparr>m_id = 0, m_generation = 0, m_vector = True\<rparr> \<and>
   run [Erase 0, Push_back No_fault 30] (container [10::nat, 20] [(0, 0), (1, 0)] [0, 1]) =
      Some (container [20::nat, 30] [(1, 0), (0, 2)] [1, 0]) \<and>
   run [Push_back No_fault (10::nat), Push_back No_fault 20, Erase 0, Push_back No_fault 30] new_vector =
      Some (container [20::nat, 30] [(1, 0), (0, 2)] [1, 0]) \<and>
   clear (container [20::nat, 30] [(1, 0), (0, 2)] [1, 0]) = container ([]::nat list) [(1, 1), (0, 3)] [1, 0] \<and>
   vector_size (container ([]::nat list) [(1, 1), (0, 3)] [1, 0]) = 0 \<and>
   valid \<lparr>m_id = 1, m_generation = 0, m_vector = True\<rparr> (container [20::nat, 30] [(1, 0), (0, 2)] [1, 0]) \<and>
   valid \<lparr>m_id = 1, m_generation = 0, m_vector = True\<rparr> (container ([]::nat list) [(1, 1), (0, 3)] [1, 0]) = False \<and>
   valid \<lparr>m_id = 0, m_generation = 0, m_vector = True\<rparr> (container ([]::nat list) [(1, 1), (0, 3)] [1, 0]) = False"
proof -
  let ?u = "container [10::nat, 20] [(0, 0), (1, 0)] [0, 1]"
  let ?v = "container [20::nat, 30] [(1, 0), (0, 2)] [1, 0]"
  let ?c = "container ([]::nat list) [(1, 1), (0, 3)] [1, 0]"
  let ?h1 = "\<lparr>m_id = 1, m_generation = 0, m_vector = True\<rparr>"
  let ?h0 = "\<lparr>m_id = 0, m_generation = 0, m_vector = True\<rparr>"
  let ?oprs = "[Erase 0, Push_back No_fault (30::nat)]"
  have ru: "run [Push_back No_fault (10::nat), Push_back No_fault 20] new_vector = Some ?u"
    by (simp add: eval_defs container_def)
  have h1: "make_handle 1 ?u = Some ?h1" by (simp add: eval_queries)
  have h0: "make_handle 0 ?u = Some ?h0" by (simp add: eval_queries)
  have o: "run ?oprs ?u = Some ?v" by (simp add: eval_defs container_def)
  have r: "run [Push_back No_fault (10::nat), Push_back No_fault 20, Erase 0, Push_back No_fault 30] new_vector = Some ?v"
    by (simp add: eval_defs container_def)
  have c: "clear ?v = ?c" by (simp add: eval_defs container_def)
  have v: "valid ?h1 ?v" by (simp add: eval_queries)
  have b: "length ?oprs + 1 < 2 ^ 64" by simp
  note t = clear_invalidates_everything [OF r]
  from t have size: "vector_size (clear ?v) = 0" by blast
  from t have kept: "\<forall>h. valid h ?v \<longrightarrow> \<not> valid h (clear ?v)" by blast
  from t have issued: "\<forall>oprs1 u i idx h oprs.
            run oprs1 new_vector = Some u \<and>
            (make_handle i u = Some h \<or> make_handle_at idx u = Some h) \<and>
            run oprs u = Some ?v \<and> length oprs + 1 < 2 ^ 64 \<longrightarrow>
            \<not> valid h (clear ?v)" by blast
  have n1: "\<not> valid ?h1 (clear ?v)" using kept v by blast
  have "run [Push_back No_fault (10::nat), Push_back No_fault 20] new_vector = Some ?u \<and>
        (make_handle 0 ?u = Some ?h0 \<or> make_handle_at 0 ?u = Some ?h0) \<and>
        run ?oprs ?u = Some ?v \<and> length ?oprs + 1 < 2 ^ 64"
    using ru h0 o b by (intro conjI disjI1)
  with issued have n0: "\<not> valid ?h0 (clear ?v)" by blast
  show ?thesis
    using ru h1 h0 o r c v size n1 n0 by simp
qed

end
